theory Spec2Isabelle
  imports Complex_Main "HOL-Library.Sublist" "HOL-Library.Multiset"
begin

section \<open>JavaScript values shared by the components\<close>

subsection \<open>Numbers\<close>

text \<open>
  A JavaScript \<open>number\<close> is an IEEE 754 binary64 value.  Its finite values are rationals;
  the three special values are kept apart.  The sign of zero is not represented: no function
  below can observe it (\<open>(-0).toString()\<close> is \<open>"0"\<close>, and every divisor in the code is a
  positive constant or an array length).
\<close>

datatype number = NaN | PosInf | NegInf | Fin rat

text \<open>\<open>ilog2 n\<close> is the position of the leading bit of a positive integer.\<close>

function ilog2 :: "int \<Rightarrow> int" where
  "ilog2 n = (if n < 2 then 0 else 1 + ilog2 (n div 2))"
  by pat_completeness auto
termination
  by (relation "measure nat") auto

declare ilog2.simps [simp del]

definition pow2 :: "int \<Rightarrow> rat" where
  "pow2 e = (if e \<ge> 0 then 2 ^ nat e else 1 / 2 ^ nat (- e))"

text \<open>The binary exponent of a positive rational: \<open>pow2 k \<le> q < pow2 (k + 1)\<close>.\<close>

definition flog2 :: "rat \<Rightarrow> int" where
  "flog2 q = (let (a, b) = quotient_of q;
                  k = ilog2 a - ilog2 b
              in if q < pow2 k then k - 1 else k)"

definition round_half_even :: "rat \<Rightarrow> int" where
  "round_half_even x = (let f = \<lfloor>x\<rfloor>; d = x - of_int f
      in if d < 1/2 then f else if 1/2 < d then f + 1 else if even f then f else f + 1)"

text \<open>
  Rounding of a positive real to the nearest double, ties to even: 53 significant bits, the
  least exponent of a subnormal is \<open>-1074\<close>, and a result of \<open>2^1024\<close> or more is
  \<open>Infinity\<close>.
\<close>

definition fl_pos :: "rat \<Rightarrow> number" where
  "fl_pos q = (let k = flog2 q; e = max (k - 52) (-1074); m = round_half_even (q / pow2 e)
     in if 1024 \<le> k \<or> (k = 1023 \<and> m = 2 ^ 53) then PosInf else Fin (of_int m * pow2 e))"

fun neg :: "number \<Rightarrow> number" where
  "neg NaN = NaN"
| "neg PosInf = NegInf"
| "neg NegInf = PosInf"
| "neg (Fin q) = Fin (- q)"

definition fl :: "rat \<Rightarrow> number" where
  "fl q = (if q = 0 then Fin 0 else if 0 < q then fl_pos q else neg (fl_pos (- q)))"

text \<open>The arithmetic operators \<open>+\<close>, \<open>*\<close>, \<open>/\<close> and \<open>%\<close> on numbers.\<close>

fun fadd :: "number \<Rightarrow> number \<Rightarrow> number" where
  "fadd (Fin a) (Fin b) = fl (a + b)"
| "fadd NaN y = NaN"
| "fadd x NaN = NaN"
| "fadd PosInf NegInf = NaN"
| "fadd NegInf PosInf = NaN"
| "fadd PosInf y = PosInf"
| "fadd NegInf y = NegInf"
| "fadd (Fin a) y = y"

fun fmul :: "number \<Rightarrow> number \<Rightarrow> number" where
  "fmul (Fin a) (Fin b) = fl (a * b)"
| "fmul NaN y = NaN"
| "fmul x NaN = NaN"
| "fmul (Fin a) y = (if a = 0 then NaN else if 0 < a then y else neg y)"
| "fmul x (Fin b) = (if b = 0 then NaN else if 0 < b then x else neg x)"
| "fmul PosInf y = y"
| "fmul NegInf y = neg y"

text \<open>Division; a zero divisor is \<open>+0\<close>.\<close>

fun fdiv :: "number \<Rightarrow> number \<Rightarrow> number" where
  "fdiv (Fin a) (Fin b) =
     (if b = 0 then (if a = 0 then NaN else if 0 < a then PosInf else NegInf) else fl (a / b))"
| "fdiv NaN y = NaN"
| "fdiv x NaN = NaN"
| "fdiv (Fin a) y = Fin 0"
| "fdiv x (Fin b) = (if 0 \<le> b then x else neg x)"
| "fdiv x y = NaN"

text \<open>
  The remainder \<open>x % y\<close> has the sign of the dividend and is exact: no rounding takes place.
\<close>

definition trunc :: "rat \<Rightarrow> int" where
  "trunc q = (if 0 \<le> q then \<lfloor>q\<rfloor> else \<lceil>q\<rceil>)"

fun fmod :: "number \<Rightarrow> number \<Rightarrow> number" where
  "fmod (Fin a) (Fin b) = (if b = 0 then NaN else Fin (a - b * of_int (trunc (a / b))))"
| "fmod NaN y = NaN"
| "fmod x NaN = NaN"
| "fmod (Fin a) y = Fin a"
| "fmod x y = NaN"

fun Math_floor :: "number \<Rightarrow> number" where
  "Math_floor (Fin q) = Fin (of_int \<lfloor>q\<rfloor>)"
| "Math_floor x = x"

text \<open>\<open>Math.round\<close>: the nearest integer, a tie going up.\<close>

fun Math_round :: "number \<Rightarrow> number" where
  "Math_round (Fin q) = Fin (of_int \<lfloor>q + 1 / 2\<rfloor>)"
| "Math_round x = x"

fun isFinite :: "number \<Rightarrow> bool" where
  "isFinite (Fin q) = True"
| "isFinite x = False"

fun isNaN :: "number \<Rightarrow> bool" where
  "isNaN NaN = True"
| "isNaN x = False"

text \<open>\<open>x || 0\<close> on an optional number: \<open>undefined\<close>, \<open>NaN\<close> and zero are falsy.\<close>

definition or_num :: "number option \<Rightarrow> number" where
  "or_num a = (case a of None \<Rightarrow> Fin 0 | Some NaN \<Rightarrow> Fin 0 | Some x \<Rightarrow> x)"

subsection \<open>Strings\<close>

definition digit_char :: "int \<Rightarrow> char" where
  "digit_char d = ''0123456789'' ! nat d"

function digits :: "int \<Rightarrow> string" where
  "digits n = (if n < 10 then [digit_char n] else digits (n div 10) @ [digit_char (n mod 10)])"
  by pat_completeness auto
termination
  by (relation "measure nat") auto

declare digits.simps [simp del]

definition int_toString :: "int \<Rightarrow> string" where
  "int_toString i = (if i < 0 then CHR ''-'' # digits (- i) else digits i)"

text \<open>
  \<open>Number.prototype.toString\<close>.  An integer of magnitude at most \<open>2^53\<close> is printed
  with its decimal digits: every integer of that range is a double, so no shorter digit
  string reads back as the same number.  The shortest round-trip digits of every other
  finite value are left to the parameter \<open>other\<close>.
\<close>

definition Number_toString :: "(rat \<Rightarrow> string) \<Rightarrow> number \<Rightarrow> string" where
  "Number_toString other x =
    (case x of NaN \<Rightarrow> ''NaN'' | PosInf \<Rightarrow> ''Infinity'' | NegInf \<Rightarrow> ''-Infinity''
     | Fin q \<Rightarrow> if of_int \<lfloor>q\<rfloor> = q \<and> \<bar>q\<bar> \<le> 2 ^ 53 then int_toString \<lfloor>q\<rfloor> else other q)"

text \<open>\<open>s.padStart(n, c)\<close> for a pad string of one character.\<close>

definition padStart :: "nat \<Rightarrow> char \<Rightarrow> string \<Rightarrow> string" where
  "padStart n c s = replicate (n - length s) c @ s"

text \<open>\<open>a || d\<close> on an optional string: \<open>undefined\<close> and the empty string are both falsy.\<close>

definition or_str :: "string option \<Rightarrow> string \<Rightarrow> string" where
  "or_str a d = (case a of None \<Rightarrow> d | Some s \<Rightarrow> if s = [] then d else s)"

subsection \<open>Arrays\<close>

text \<open>\<open>Array.prototype.indexOf\<close>: the first position of the element, \<open>-1\<close> when it is absent.\<close>

fun indexOf :: "'a list \<Rightarrow> 'a \<Rightarrow> int" where
  "indexOf [] x = -1"
| "indexOf (y # ys) x =
     (if y = x then 0 else (let i = indexOf ys x in if i < 0 then -1 else i + 1))"

text \<open>\<open>xs[i]\<close>: reading outside the array gives \<open>undefined\<close>.\<close>

definition array_get :: "'a list \<Rightarrow> int \<Rightarrow> 'a option" where
  "array_get xs i = (if 0 \<le> i \<and> i < int (length xs) then Some (xs ! nat i) else None)"

text \<open>\<open>s.split('\n')\<close>: always at least one piece.\<close>

fun split_nl :: "string \<Rightarrow> string list" where
  "split_nl [] = [Nil]"
| "split_nl (c # cs) =
     (if c = CHR 0x0A then [] # split_nl cs
      else (case split_nl cs of [] \<Rightarrow> [c] # [] | l # ls \<Rightarrow> (c # l) # ls))"

section \<open>types/index.ts and services/api.ts: the data model\<close>

record SourceReference =
  sr_index :: number
  sr_video_url :: string
  sr_video_title :: string
  sr_start_time :: number
  sr_end_time :: number
  sr_chapter :: string
  sr_text :: "string option"

record QuizQuestion =
  q_id :: string
  question_index :: int
  question :: string
  question_type :: string
  options :: "(string \<times> string) list option"
  correct_answer :: "string option"
  reference_answer :: "string option"
  key_points :: "string list option"

text \<open>
  The guard of \<open>calculateScore\<close> tests \<open>quiz.questions\<close> for being there, so the field is
  optional in the model.
\<close>

record Quiz =
  quiz_id :: string
  num_questions :: number
  questions :: "QuizQuestion list option"

record QuizValidationResult =
  is_correct :: bool
  llm_score :: "number option"
  explanation :: "string option"

text \<open>
  The store's \<open>Map<number, QuizValidationResult>\<close> is an association list whose first
  entry for a key is the current one; its \<open>size\<close> is zero exactly when the list is empty.
\<close>

type_synonym validation_results = "(int \<times> QuizValidationResult) list"

record VideoInfo =
  vi_video_id :: string
  vi_title :: string
  vi_chapter :: string
  vi_video_url :: string
  vi_duration :: string
  vi_duration_seconds :: number

record Source =
  src_index :: number
  src_video_id :: string
  src_video_title :: string
  src_video_url :: string
  src_start_time :: number
  src_end_time :: number
  src_text :: string
  src_score :: number

text \<open>
  \<open>SSEEvent\<close>: the discriminant is kept as the string that arrives on the wire, because
  \<open>streamSSE\<close> casts whatever \<open>JSON.parse\<close> returned; every other field is optional.
\<close>

record SSEEvent =
  ev_type :: string
  ev_content :: "string option"
  ev_sources :: "Source list option"
  ev_video_info :: "VideoInfo option"
  ev_session_id :: "string option"
  ev_error :: "string option"

record StreamState =
  isStreaming :: bool
  content :: string
  sources :: "Source list"
  videoInfo :: "VideoInfo option"
  sessionId :: "string option"
  error :: "string option"

section \<open>hooks: handleSSEEvent\<close>

text \<open>
  \<open>handleSSEEvent(event, setState)\<close> calls \<open>setState\<close> with an updater \<open>prev => ...\<close>; the
  model is that updater.  A type outside the six cases of the \<open>switch\<close> leaves the state as
  it is.  An array is truthy even when empty, so \<open>event.sources || prev.sources\<close> falls
  back only when the field is missing; \<open>event.session_id || null\<close> also maps the empty
  string to \<open>null\<close>.
\<close>

definition handleSSEEvent :: "SSEEvent \<Rightarrow> StreamState \<Rightarrow> StreamState" where
  "handleSSEEvent event prev =
    (if ev_type event = ''token'' then
       prev\<lparr>content := content prev @ or_str (ev_content event) ''''\<rparr>
     else if ev_type event = ''sources'' then
       prev\<lparr>sources := (case ev_sources event of None \<Rightarrow> [] | Some ss \<Rightarrow> ss)\<rparr>
     else if ev_type event = ''metadata'' then
       prev\<lparr>videoInfo := ev_video_info event\<rparr>
     else if ev_type event = ''done'' then
       prev\<lparr>isStreaming := False,
            sessionId := (case ev_session_id event of None \<Rightarrow> None
                          | Some s \<Rightarrow> if s = [] then None else Some s),
            sources := (case ev_sources event of None \<Rightarrow> sources prev | Some ss \<Rightarrow> ss)\<rparr>
     else if ev_type event = ''cached'' then
       prev\<lparr>isStreaming := False,
            content := or_str (ev_content event) '''',
            videoInfo := ev_video_info event\<rparr>
     else if ev_type event = ''error'' then
       prev\<lparr>isStreaming := False,
            error := Some (or_str (ev_content event) ''Unknown error'')\<rparr>
     else prev)"

section \<open>components/Chat/ChatInput.tsx\<close>

definition modes :: "string list" where
  "modes = [''qa'', ''video_summary'', ''quiz'']"

text \<open>\<open>handleModeCycle\<close> passes \<open>modes[nextIndex]\<close> to \<open>onModeChange\<close>; the model returns it.\<close>

definition handleModeCycle :: "string \<Rightarrow> string" where
  "handleModeCycle currentMode =
    (let currentIndex = indexOf modes currentMode;
         nextIndex = (if currentIndex \<ge> 0 then (currentIndex + 1) mod int (length modes) else 0)
     in modes ! nat nextIndex)"

text \<open>\<open>handleChapterToggle\<close> passes the new list to \<open>onChaptersChange\<close>; the model returns it.\<close>

definition handleChapterToggle :: "string list \<Rightarrow> string \<Rightarrow> string list" where
  "handleChapterToggle selectedChapters chapter =
    (if chapter \<in> set selectedChapters
     then filter (\<lambda>c. c \<noteq> chapter) selectedChapters
     else selectedChapters @ [chapter])"

section \<open>components/Chat/Message.tsx and VideoSummaryDisplay: citations\<close>

text \<open>
  What a click can do to the outside: call \<open>onSeekVideo(t)\<close>, or call
  \<open>window.open(url, '_blank', 'noopener,noreferrer')\<close>.
\<close>

datatype effect = SeekVideo number | WindowOpen string

text \<open>
  \<open>handleCitationClick(index, sources)\<close> of \<open>Message\<close>.  \<open>onSeekVideo\<close> says whether the
  optional callback was given.  The index comes from \<open>parseInt\<close> of a digit string, an
  integer; the array read \<open>sources[index - 1]\<close> is \<open>undefined\<close> outside the array.
\<close>

definition handleCitationClick ::
  "(rat \<Rightarrow> string) \<Rightarrow> bool \<Rightarrow> int \<Rightarrow> SourceReference list option \<Rightarrow> effect list" where
  "handleCitationClick other onSeekVideo index srcs =
    (case srcs of None \<Rightarrow> []
     | Some ss \<Rightarrow>
         if index > int (length ss) then []
         else (case array_get ss (index - 1) of None \<Rightarrow> []
               | Some source \<Rightarrow>
                   if onSeekVideo then [SeekVideo (sr_start_time source)]
                   else [WindowOpen (sr_video_url source @ ''&t=''
                           @ Number_toString other (sr_start_time source) @ ''s'')]))"

text \<open>The copy of the handler in \<open>VideoSummaryDisplay\<close>.\<close>

definition summary_handleCitationClick ::
  "(rat \<Rightarrow> string) \<Rightarrow> bool \<Rightarrow> int \<Rightarrow> SourceReference list option \<Rightarrow> effect list" where
  "summary_handleCitationClick other onSeekVideo index srcs =
    (case srcs of None \<Rightarrow> []
     | Some ss \<Rightarrow>
         if index > int (length ss) then []
         else (case array_get ss (index - 1) of None \<Rightarrow> []
               | Some source \<Rightarrow>
                   if onSeekVideo then [SeekVideo (sr_start_time source)]
                   else [WindowOpen (sr_video_url source @ ''&t=''
                           @ Number_toString other (sr_start_time source) @ ''s'')]))"

text \<open>
  \<open>processTextWithCitations\<close> pushes two kinds of parts: a slice of the text, and a button
  that shows \<open>[citationIndex]\<close> and calls \<open>handleCitationClick(citationIndex, sources)\<close>
  when clicked.
\<close>

datatype part = TextPart string | CitationButton int

definition is_digit :: "char \<Rightarrow> bool" where
  "is_digit c = (c \<in> set ''0123456789'')"

text \<open>
  \<open>parseInt\<close> of a string of decimal digits.  The value is exact here; the double that
  JavaScript returns differs only above \<open>2^53\<close>, beyond the length of any array.
\<close>

definition parseInt :: "string \<Rightarrow> int" where
  "parseInt ds = foldl (\<lambda>a c. 10 * a + (of_char c - 48)) 0 ds"

text \<open>
  The regular expression \<open>/\[(\d+)\]/\<close> tried at the head of a string: the digits of the
  group and the text after the closing bracket.
\<close>

definition match_here :: "string \<Rightarrow> (string \<times> string) option" where
  "match_here s =
    (case s of [] \<Rightarrow> None
     | c # cs \<Rightarrow>
         if c = CHR ''['' then
           (case dropWhile is_digit cs of [] \<Rightarrow> None
            | d # r \<Rightarrow> if takeWhile is_digit cs \<noteq> [] \<and> d = CHR '']''
                       then Some (takeWhile is_digit cs, r) else None)
         else None)"

text \<open>
  The \<open>while ((match = citationRegex.exec(text)) !== null)\<close> loop.  \<open>pending\<close> is
  \<open>text.slice(lastIndex, i)\<close> for the position \<open>i\<close> the search has reached, \<open>s\<close> the text
  from \<open>i\<close> on; the search takes the leftmost match.  After the loop the remaining text
  is pushed when it is not empty.
\<close>

function citation_loop :: "string \<Rightarrow> string \<Rightarrow> part list \<Rightarrow> part list" where
  "citation_loop pending s parts =
    (case s of
       [] \<Rightarrow> parts @ (if pending \<noteq> [] then [TextPart pending] else [])
     | c # cs \<Rightarrow>
        (case match_here s of
           Some (ds, r) \<Rightarrow>
             citation_loop [] r
               (parts @ (if pending \<noteq> [] then [TextPart pending] else [])
                      @ [CitationButton (parseInt ds)])
         | None \<Rightarrow> citation_loop (pending @ [c]) cs parts))"
  by pat_completeness auto
termination
proof (relation "measure (\<lambda>(pending, s, parts). length s)")
  show "wf (measure (\<lambda>(pending, s, parts). length s))"
    by simp
next
  fix pending s :: string and parts :: "part list" and c cs x ds r
  assume "s = c # cs" and "match_here s = Some x" and "(ds, r) = x"
  then have "dropWhile is_digit cs = CHR '']'' # r"
    by (auto simp: match_here_def split: if_splits list.splits)
  then have "length r < length (dropWhile is_digit cs)"
    by simp
  also have "\<dots> \<le> length cs"
    by (rule length_dropWhile_le)
  finally show "((([], r, parts @ (if pending \<noteq> [] then [TextPart pending] else [])
                      @ [CitationButton (parseInt ds)])), (pending, s, parts))
        \<in> measure (\<lambda>(pending, s, parts). length s)"
    using \<open>s = c # cs\<close> by simp
next
  fix pending s :: string and parts :: "part list" and c cs
  assume "s = c # cs"
  then show "((pending @ [c], cs, parts), (pending, s, parts))
        \<in> measure (\<lambda>(pending, s, parts). length s)"
    by simp
qed

declare citation_loop.simps [simp del]

text \<open>The value returned: a fragment of the parts, or the text itself when there is none.\<close>

datatype rendered = Fragment "part list" | Plain string

definition processTextWithCitations :: "string \<Rightarrow> SourceReference list \<Rightarrow> rendered" where
  "processTextWithCitations text srcs =
    (let parts = citation_loop [] text []
     in if length parts > 0 then Fragment parts else Plain text)"

text \<open>The \<open>onClick\<close> of a part rendered by \<open>Message\<close>; a slice of text has none.\<close>

fun onClick :: "(rat \<Rightarrow> string) \<Rightarrow> bool \<Rightarrow> SourceReference list \<Rightarrow> part \<Rightarrow> effect list" where
  "onClick other onSeekVideo srcs (CitationButton citationIndex) =
     handleCitationClick other onSeekVideo citationIndex (Some srcs)"
| "onClick other onSeekVideo srcs (TextPart t) = []"

text \<open>
  How \<open>renderContentWithCitations\<close> treats a string child of a paragraph or a list item:
  without sources (none, or an empty list) the content goes to the Markdown renderer as it
  is; with sources the custom \<open>p\<close> and \<open>li\<close> components pass the string through
  \<open>processTextWithCitations\<close>.
\<close>

datatype text_node = Literal string | WithCitations rendered

definition render_text_node :: "string \<Rightarrow> SourceReference list option \<Rightarrow> text_node" where
  "render_text_node text srcs =
    (case srcs of
       None \<Rightarrow> Literal text
     | Some ss \<Rightarrow>
         if length ss = 0 then Literal text
         else WithCitations (processTextWithCitations text ss))"

section \<open>services/api.ts: streamSSE\<close>

text \<open>
  What \<open>fetch\<close> gave: a rejection (the error's \<open>message\<close> and its \<open>String(error)\<close>), or
  a response with its \<open>ok\<close> flag, its status and, when there is a body, the chunks that
  the reader delivers before it reports \<open>done\<close>.  A chunk is the text of its bytes: the
  byte \<open>0x0A\<close> occurs in UTF-8 only as the line feed, so splitting the decoded text at
  \<open>'\n'\<close> and splitting the bytes agree.
\<close>

datatype fetch_result = Rejected string string | Response bool int "string list option"

text \<open>
  One turn of the reading loop: \<open>buffer += chunk; lines = buffer.split('\n');
  buffer = lines.pop() || ''\<close>.  The lines to process and the new buffer.
\<close>

definition take_lines :: "string \<Rightarrow> string \<Rightarrow> string list \<times> string" where
  "take_lines buffer chunk =
    (let lines = split_nl (buffer @ chunk) in (butlast lines, last lines))"

text \<open>
  \<open>JSON.parse\<close> is the parameter \<open>parse\<close>: \<open>None\<close> when it throws.  The inner
  \<open>for (const line of lines)\<close> loop yields the parsed data of a \<open>data: \<close> line.
\<close>

fun yield_lines :: "(string \<Rightarrow> 'e option) \<Rightarrow> string list \<Rightarrow> 'e list" where
  "yield_lines parse [] = []"
| "yield_lines parse (line # lines) =
     (if prefix ''data: '' line then
        (case parse (drop 6 line) of
           Some data \<Rightarrow> data # yield_lines parse lines
         | None \<Rightarrow> yield_lines parse lines)
      else yield_lines parse lines)"

fun streamSSE_loop :: "(string \<Rightarrow> 'e option) \<Rightarrow> string \<Rightarrow> string list \<Rightarrow> 'e list" where
  "streamSSE_loop parse buffer [] = []"
| "streamSSE_loop parse buffer (chunk # chunks) =
     (case take_lines buffer chunk of
        (lines, buffer') \<Rightarrow> yield_lines parse lines @ streamSSE_loop parse buffer' chunks)"

text \<open>The generator: the message of the error thrown, or the events yielded.\<close>

definition streamSSE :: "(string \<Rightarrow> 'e option) \<Rightarrow> fetch_result \<Rightarrow> string + 'e list" where
  "streamSSE parse response =
    (case response of
       Rejected message str \<Rightarrow> Inl message
     | Response ok status body \<Rightarrow>
         if \<not> ok then Inl (''HTTP '' @ int_toString status)
         else (case body of
                 None \<Rightarrow> Inl ''No response body''
               | Some chunks \<Rightarrow> Inr (streamSSE_loop parse [] chunks)))"

section \<open>hooks: useSSE\<close>

text \<open>
  The object that \<open>JSON.parse\<close> returned, seen through the fields that \<open>startStream\<close>
  reads.  A value without a field (a number, a string, an array) has none of them; \<open>null\<close>
  makes the read of \<open>parsed.type\<close> throw inside the guarded block, which skips the line as a
  parse error does, so the parameter \<open>parse\<close> gives \<open>None\<close> for it.
\<close>

record Payload =
  pl_type :: "string option"
  pl_content :: "string option"
  pl_progress :: "number option"
  pl_result :: "QuizValidationResult option"
  pl_sources :: "SourceReference list option"
  pl_session_id :: "string option"
  pl_quiz_id :: "string option"

text \<open>The optional callbacks of \<open>UseSSEOptions\<close>: whether each one was given.\<close>

record UseSSEOptions =
  has_onProgress :: bool
  has_onValidation :: bool

datatype callback =
    OnToken string
  | OnProgress number
  | OnValidation "QuizValidationResult option"
  | OnDone string "SourceReference list option" "string option" "string option"
  | OnError string

text \<open>The local variables of \<open>startStream\<close> that the events change.\<close>

record SSEVars =
  v_content :: string
  v_sources :: "SourceReference list"
  v_sessionId :: "string option"
  v_quizId :: "string option"
  v_progress :: number

definition init_vars :: SSEVars where
  "init_vars = \<lparr>v_content = [], v_sources = [], v_sessionId = None, v_quizId = None,
                 v_progress = Fin 0\<rparr>"

text \<open>The chain of \<open>if (parsed.type === ...)\<close>: the new variables and the callbacks called.\<close>

definition dispatch :: "UseSSEOptions \<Rightarrow> Payload \<Rightarrow> SSEVars \<Rightarrow> SSEVars \<times> callback list" where
  "dispatch opts parsed v =
    (if pl_type parsed = Some ''token'' then
       (v\<lparr>v_content := v_content v @ or_str (pl_content parsed) ''''\<rparr>,
        [OnToken (or_str (pl_content parsed) '''')])
     else if pl_type parsed = Some ''progress'' then
       (v\<lparr>v_progress := or_num (pl_progress parsed)\<rparr>,
        if has_onProgress opts then [OnProgress (or_num (pl_progress parsed))] else [])
     else if pl_type parsed = Some ''validation'' then
       (v, if has_onValidation opts then [OnValidation (pl_result parsed)] else [])
     else if pl_type parsed = Some ''sources'' then
       (v\<lparr>v_sources := (case pl_sources parsed of None \<Rightarrow> [] | Some ss \<Rightarrow> ss)\<rparr>, [])
     else if pl_type parsed = Some ''session_id'' then
       (v\<lparr>v_sessionId := pl_session_id parsed\<rparr>, [])
     else if pl_type parsed = Some ''quiz_id'' then
       (v\<lparr>v_quizId := pl_quiz_id parsed\<rparr>, [])
     else (v, []))"

text \<open>\<open>options.onDone(content, sources.length > 0 ? sources : undefined, sessionId, quizId)\<close>.\<close>

definition onDone_call :: "SSEVars \<Rightarrow> callback" where
  "onDone_call v =
    OnDone (v_content v) (if length (v_sources v) > 0 then Some (v_sources v) else None)
           (v_sessionId v) (v_quizId v)"

text \<open>
  The inner loop over the lines of one chunk.  The flag says that the \<open>[DONE]\<close> line was
  met: \<open>onDone\<close> has been called and \<open>startStream\<close> has returned.
\<close>

fun process_lines ::
  "UseSSEOptions \<Rightarrow> (string \<Rightarrow> Payload option) \<Rightarrow> string list \<Rightarrow> SSEVars
    \<Rightarrow> bool \<times> SSEVars \<times> callback list" where
  "process_lines opts parse [] v = (False, v, [])"
| "process_lines opts parse (line # lines) v =
     (if prefix ''data: '' line then
        (if drop 6 line = ''[DONE]'' then (True, v, [onDone_call v])
         else (case parse (drop 6 line) of
                 None \<Rightarrow> process_lines opts parse lines v
               | Some parsed \<Rightarrow>
                   (case dispatch opts parsed v of
                      (v', calls) \<Rightarrow>
                        (case process_lines opts parse lines v' of
                           (returned, v'', calls') \<Rightarrow> (returned, v'', calls @ calls')))))
      else process_lines opts parse lines v)"

text \<open>The \<open>while (true)\<close> loop over the chunks; after the last one, \<open>onDone\<close> is called.\<close>

fun read_loop ::
  "UseSSEOptions \<Rightarrow> (string \<Rightarrow> Payload option) \<Rightarrow> string list \<Rightarrow> string \<Rightarrow> SSEVars
    \<Rightarrow> callback list" where
  "read_loop opts parse [] buffer v = [onDone_call v]"
| "read_loop opts parse (chunk # chunks) buffer v =
     (case take_lines buffer chunk of
        (lines, buffer') \<Rightarrow>
          (case process_lines opts parse lines v of
             (returned, v', calls) \<Rightarrow>
               if returned then calls else calls @ read_loop opts parse chunks buffer' v'))"

text \<open>\<open>startStream\<close>: the callbacks of \<open>options\<close> it calls, in order.\<close>

definition startStream ::
  "UseSSEOptions \<Rightarrow> (string \<Rightarrow> Payload option) \<Rightarrow> fetch_result \<Rightarrow> callback list" where
  "startStream opts parse response =
    (case response of
       Rejected message str \<Rightarrow> [OnError (if message \<noteq> [] then message else str)]
     | Response ok status body \<Rightarrow>
         if \<not> ok then [OnError (''HTTP error! status: '' @ int_toString status)]
         else (case body of
                 None \<Rightarrow> [OnError ''No response body'']
               | Some chunks \<Rightarrow> read_loop opts parse chunks [] init_vars))"

text \<open>
  The reading of the stream that the parsers are compared with: the complete lines of the
  whole stream (the text after the last line feed is never processed), and the event of a
  line, which exists when the line begins with \<open>data: \<close> and its payload parses.
\<close>

definition complete_lines :: "string list \<Rightarrow> string list" where
  "complete_lines chunks = butlast (split_nl (concat chunks))"

definition event_of_line :: "(string \<Rightarrow> 'e option) \<Rightarrow> string \<Rightarrow> 'e option" where
  "event_of_line parse line = (if prefix ''data: '' line then parse (drop 6 line) else None)"

text \<open>Dispatching a list of events in order: the variables at the end, and the callbacks.\<close>

fun dispatch_all :: "UseSSEOptions \<Rightarrow> Payload list \<Rightarrow> SSEVars \<Rightarrow> SSEVars \<times> callback list" where
  "dispatch_all opts [] v = (v, [])"
| "dispatch_all opts (e # es) v =
     (case dispatch opts e v of
        (v', calls) \<Rightarrow> (case dispatch_all opts es v' of (v'', calls') \<Rightarrow> (v'', calls @ calls')))"

text \<open>The events that \<open>startStream\<close> processes: those of the lines before the sentinel.\<close>

definition before_done :: "string list \<Rightarrow> string list" where
  "before_done lines = takeWhile (\<lambda>line. line \<noteq> ''data: [DONE]'') lines"

definition processed_events :: "(string \<Rightarrow> Payload option) \<Rightarrow> string list \<Rightarrow> Payload list" where
  "processed_events parse chunks =
    List.map_filter (event_of_line parse) (before_done (complete_lines chunks))"

fun is_OnDone :: "callback \<Rightarrow> bool" where
  "is_OnDone (OnDone c s i q) = True"
| "is_OnDone x = False"

definition token_text :: "Payload list \<Rightarrow> string" where
  "token_text events =
    concat (map (\<lambda>e. case pl_content e of None \<Rightarrow> [] | Some c \<Rightarrow> c)
                (filter (\<lambda>e. pl_type e = Some ''token'') events))"

section \<open>components/Chat/QuizDisplay.tsx: the score\<close>

text \<open>The score of one question, as the list of questions shows it; \<open>null\<close> without a result.\<close>

definition questionScore :: "validation_results \<Rightarrow> QuizQuestion \<Rightarrow> number option" where
  "questionScore validationResults q =
    (case map_of validationResults (question_index q) of
       None \<Rightarrow> None
     | Some result \<Rightarrow>
         Some (if question_type q = ''mcq''
               then (if is_correct result then Fin 100 else Fin 0)
               else or_num (llm_score result)))"

text \<open>The body of \<open>quiz.questions.forEach\<close> in \<open>calculateScore\<close>: the new \<open>totalScore\<close>.\<close>

definition add_score :: "validation_results \<Rightarrow> number \<Rightarrow> QuizQuestion \<Rightarrow> number" where
  "add_score validationResults totalScore q =
    (case map_of validationResults (question_index q) of
       None \<Rightarrow> totalScore
     | Some result \<Rightarrow>
         if question_type q = ''mcq''
         then fadd totalScore (if is_correct result then Fin 100 else Fin 0)
         else fadd totalScore (or_num (llm_score result)))"

definition calculateScore :: "Quiz option \<Rightarrow> validation_results \<Rightarrow> number option" where
  "calculateScore quiz validationResults =
    (case quiz of
       None \<Rightarrow> None
     | Some qz \<Rightarrow>
        (case questions qz of
           None \<Rightarrow> None
         | Some qs \<Rightarrow>
             if validationResults = [] then None
             else (let totalScore = foldl (add_score validationResults) (Fin 0) qs;
                       maxScore = fmul (Fin (of_nat (length qs))) (Fin 100)
                   in Some (Math_round (fmul (fdiv totalScore maxScore) (Fin 100))))))"

text \<open>
  The aggregation as the specification words it: the points of a question are 100 or 0 for
  a multiple-choice question and the stored score of an open-ended one (0 when absent), and
  the overall score is their sum over 100 times the number of questions, as a percentage.
\<close>

definition question_points :: "validation_results \<Rightarrow> QuizQuestion \<Rightarrow> rat" where
  "question_points validationResults q =
    (case questionScore validationResults q of Some (Fin s) \<Rightarrow> s | _ \<Rightarrow> 0)"

definition total_points :: "validation_results \<Rightarrow> QuizQuestion list \<Rightarrow> rat" where
  "total_points validationResults qs = sum_list (map (question_points validationResults) qs)"

text \<open>
  A question is \<open>stored\<close> when it has a validation result and, for an open-ended question,
  the score of the result is absent or a whole number from 0 to 100, the range of scores of
  a \<open>ValidationResult\<close>.
\<close>

definition whole_score :: "number option \<Rightarrow> bool" where
  "whole_score s =
    (case s of
       None \<Rightarrow> True
     | Some (Fin v) \<Rightarrow> of_int \<lfloor>v\<rfloor> = v \<and> 0 \<le> v \<and> v \<le> 100
     | Some _ \<Rightarrow> False)"

definition stored :: "validation_results \<Rightarrow> QuizQuestion \<Rightarrow> bool" where
  "stored validationResults q =
    (case map_of validationResults (question_index q) of
       None \<Rightarrow> False
     | Some result \<Rightarrow> question_type q = ''mcq'' \<or> whole_score (llm_score result))"

section \<open>components/VideoPlayer: formatTime\<close>

definition formatTime :: "(rat \<Rightarrow> string) \<Rightarrow> number \<Rightarrow> string" where
  "formatTime other seconds =
    (if \<not> isFinite seconds \<or> isNaN seconds then ''00:00''
     else (let mins = Math_floor (fdiv seconds (Fin 60));
               secs = Math_floor (fmod seconds (Fin 60))
           in padStart 2 (CHR ''0'') (Number_toString other mins) @ '':''
              @ padStart 2 (CHR ''0'') (Number_toString other secs)))"

section \<open>Sample inputs\<close>

text \<open>No sample below prints a number that is not an integer, so this is never consulted.\<close>

definition unused_toString :: "rat \<Rightarrow> string" where
  "unused_toString q = []"

definition sample_source :: SourceReference where
  "sample_source =
    \<lparr>sr_index = Fin 1, sr_video_url = ''https://www.youtube.com/watch?v=abc'',
     sr_video_title = ''Lecture 1'', sr_start_time = Fin 42, sr_end_time = Fin 60,
     sr_chapter = ''Chapter 1'', sr_text = None\<rparr>"

definition second_source :: SourceReference where
  "second_source =
    \<lparr>sr_index = Fin 2, sr_video_url = ''https://www.youtube.com/watch?v=xyz'',
     sr_video_title = ''Lecture 2'', sr_start_time = Fin 7, sr_end_time = Fin 19,
     sr_chapter = ''Chapter 2'', sr_text = None\<rparr>"

definition idle_state :: StreamState where
  "idle_state =
    \<lparr>isStreaming = True, content = ''partial'', sources = [], videoInfo = None,
     sessionId = Some ''s1'', error = None\<rparr>"

definition cached_event :: SSEEvent where
  "cached_event =
    \<lparr>ev_type = ''cached'', ev_content = Some ''Full summary'', ev_sources = None,
     ev_video_info = None, ev_session_id = None, ev_error = None\<rparr>"

definition error_event :: SSEEvent where
  "error_event =
    \<lparr>ev_type = ''error'', ev_content = Some ''Generation failed'', ev_sources = None,
     ev_video_info = None, ev_session_id = None, ev_error = None\<rparr>"

definition empty_error_event :: SSEEvent where
  "empty_error_event =
    \<lparr>ev_type = ''error'', ev_content = Some [], ev_sources = None,
     ev_video_info = None, ev_session_id = None, ev_error = None\<rparr>"

definition mcq :: "int \<Rightarrow> QuizQuestion" where
  "mcq i =
    \<lparr>q_id = ''q'', question_index = i, question = ''?'', question_type = ''mcq'',
     options = None, correct_answer = Some ''A'', reference_answer = None,
     key_points = None\<rparr>"

definition open_ended :: "int \<Rightarrow> QuizQuestion" where
  "open_ended i =
    \<lparr>q_id = ''q'', question_index = i, question = ''?'', question_type = ''open_ended'',
     options = None, correct_answer = None, reference_answer = Some ''r'',
     key_points = None\<rparr>"

definition mcq_result :: "bool \<Rightarrow> QuizValidationResult" where
  "mcq_result b = \<lparr>is_correct = b, llm_score = None, explanation = None\<rparr>"

definition open_result :: "rat \<Rightarrow> QuizValidationResult" where
  "open_result s = \<lparr>is_correct = False, llm_score = Some (Fin s), explanation = None\<rparr>"

text \<open>Four multiple-choice questions, three of them right, and an open-ended one scored 80.\<close>

definition sample_quiz :: Quiz where
  "sample_quiz =
    \<lparr>quiz_id = ''quiz'', num_questions = Fin 5,
     questions = Some [mcq 0, mcq 1, mcq 2, mcq 3, open_ended 4]\<rparr>"

definition sample_results :: validation_results where
  "sample_results =
    [(0, mcq_result True), (1, mcq_result True), (2, mcq_result True),
     (3, mcq_result False), (4, open_result 80)]"

text \<open>Two open-ended questions scored 29 and 0: the exact percentage is 14.5.\<close>

definition tie_quiz :: Quiz where
  "tie_quiz =
    \<lparr>quiz_id = ''tie'', num_questions = Fin 2,
     questions = Some [open_ended 0, open_ended 1]\<rparr>"

definition tie_results :: validation_results where
  "tie_results = [(0, open_result 29), (1, open_result 0)]"

text \<open>
  A stand-in for \<open>JSON.parse\<close> that knows one text, a token event; on \<open>[DONE]\<close>, which is
  not JSON, it fails as \<open>JSON.parse\<close> does.
\<close>

definition token_json :: string where
  \<open>token_json = ''{"type":"token","content":"Hi"}''\<close>

definition token_payload :: Payload where
  "token_payload =
    \<lparr>pl_type = Some ''token'', pl_content = Some ''Hi'', pl_progress = None,
     pl_result = None, pl_sources = None, pl_session_id = None, pl_quiz_id = None\<rparr>"

definition sample_parse :: "string \<Rightarrow> Payload option" where
  "sample_parse s = (if s = token_json then Some token_payload else None)"

definition sample_opts :: UseSSEOptions where
  "sample_opts = \<lparr>has_onProgress = True, has_onValidation = True\<rparr>"

text \<open>A stream whose first line is the sentinel and whose second line is a token event.\<close>

definition done_first :: "string list" where
  "done_first = [''data: [DONE]\<newline>data: '' @ token_json @ ''\<newline>'']"

text \<open>A stream in two chunks that cut a line: a comment, a token, broken JSON, a token.\<close>

definition two_chunks :: "string list" where
  "two_chunks =
    ['': ping\<newline>data: '' @ take 10 token_json,
     drop 10 token_json @ ''\<newline>data: {broken\<newline>data: '' @ token_json @ ''\<newline>data: '']"

section \<open>Stream state: the terminal events\<close>

text \<open>
  C5.  Handling a \<open>cached\<close> event ends streaming, replaces the content of the state by the
  content of the event (the empty string when the field is absent) and the video info by
  the video info of the event.  Whatever the content was before, it is the text of the event
  afterwards, so no token event is needed; the other fields are kept.
\<close>

theorem handleSSEEvent_cached:
  assumes "ev_type event = ''cached''"
  shows "isStreaming (handleSSEEvent event prev) = False
   \<and> content (handleSSEEvent event prev) = (case ev_content event of None \<Rightarrow> '''' | Some c \<Rightarrow> c)
   \<and> videoInfo (handleSSEEvent event prev) = ev_video_info event
   \<and> sources (handleSSEEvent event prev) = sources prev
   \<and> sessionId (handleSSEEvent event prev) = sessionId prev
   \<and> error (handleSSEEvent event prev) = error prev"
  using assms by (cases "ev_content event") (simp_all add: handleSSEEvent_def or_str_def)

theorem handleSSEEvent_cached_witness:
  "ev_type cached_event = ''cached''
   \<and> isStreaming (handleSSEEvent cached_event idle_state) = False
   \<and> content (handleSSEEvent cached_event idle_state) = ''Full summary''
   \<and> videoInfo (handleSSEEvent cached_event idle_state) = None"
proof -
  have t: "ev_type cached_event = ''cached''"
    by (simp add: cached_event_def)
  from handleSSEEvent_cached [OF t, of idle_state] t show ?thesis
    by (simp add: cached_event_def)
qed

text \<open>
  C6, as the code has it.  Handling an \<open>error\<close> event ends streaming and sets the error of
  the state to the content of the event, or to \<open>Unknown error\<close> when the content is absent
  or is the empty string; content, sources, video info and session id are unchanged.
\<close>

theorem handleSSEEvent_error:
  assumes "ev_type event = ''error''"
  shows "isStreaming (handleSSEEvent event prev) = False
   \<and> error (handleSSEEvent event prev)
       = Some (case ev_content event of
                 None \<Rightarrow> ''Unknown error''
               | Some c \<Rightarrow> if c = [] then ''Unknown error'' else c)
   \<and> content (handleSSEEvent event prev) = content prev
   \<and> sources (handleSSEEvent event prev) = sources prev
   \<and> videoInfo (handleSSEEvent event prev) = videoInfo prev
   \<and> sessionId (handleSSEEvent event prev) = sessionId prev"
proof (cases "ev_content event")
  case None
  with assms show ?thesis
    by (simp add: handleSSEEvent_def or_str_def)
next
  case (Some c)
  with assms show ?thesis
    by (simp add: handleSSEEvent_def or_str_def)
qed

theorem handleSSEEvent_error_witness:
  "ev_type error_event = ''error''
   \<and> isStreaming (handleSSEEvent error_event idle_state) = False
   \<and> error (handleSSEEvent error_event idle_state) = Some ''Generation failed''
   \<and> content (handleSSEEvent error_event idle_state) = ''partial''
   \<and> sessionId (handleSSEEvent error_event idle_state) = Some ''s1''"
proof -
  have t: "ev_type error_event = ''error''"
    by (simp add: error_event_def)
  from handleSSEEvent_error [OF t, of idle_state] t show ?thesis
    by (simp add: error_event_def idle_state_def)
qed

text \<open>
  The claim as it is written fails on an error event whose content is present and empty:
  the error is then not the content of the event.
\<close>

theorem handleSSEEvent_error_counterexample:
  "ev_type empty_error_event = ''error''
   \<and> ev_content empty_error_event = Some []
   \<and> error (handleSSEEvent empty_error_event idle_state) = Some ''Unknown error''
   \<and> error (handleSSEEvent empty_error_event idle_state) \<noteq> ev_content empty_error_event"
  by (simp add: empty_error_event_def idle_state_def handleSSEEvent_def or_str_def)

section \<open>The chat input\<close>

text \<open>
  C8.  \<open>handleModeCycle\<close> goes from \<open>qa\<close> to \<open>video_summary\<close> to \<open>quiz\<close> and back to
  \<open>qa\<close>; three applications to a mode of the list give the mode back, and a value that is
  not in the list is sent to \<open>qa\<close>.
\<close>

theorem handleModeCycle_cyclic:
  "handleModeCycle ''qa'' = ''video_summary''
   \<and> handleModeCycle ''video_summary'' = ''quiz''
   \<and> handleModeCycle ''quiz'' = ''qa''
   \<and> (currentMode \<in> set modes \<longrightarrow>
        handleModeCycle (handleModeCycle (handleModeCycle currentMode)) = currentMode)
   \<and> (currentMode \<notin> set modes \<longrightarrow> handleModeCycle currentMode = ''qa'')"
proof -
  have step: "handleModeCycle ''qa'' = ''video_summary''"
    "handleModeCycle ''video_summary'' = ''quiz''" "handleModeCycle ''quiz'' = ''qa''"
    by (simp_all add: handleModeCycle_def modes_def)
  have inside: "handleModeCycle (handleModeCycle (handleModeCycle currentMode)) = currentMode"
    if "currentMode \<in> set modes"
  proof -
    from that consider "currentMode = ''qa''" | "currentMode = ''video_summary''"
      | "currentMode = ''quiz''"
      by (auto simp: modes_def)
    then show ?thesis
      by cases (simp_all add: step)
  qed
  have outside: "handleModeCycle currentMode = ''qa''" if "currentMode \<notin> set modes"
  proof -
    from that have "indexOf modes currentMode = -1"
      by (auto simp: modes_def)
    then show ?thesis
      by (simp add: handleModeCycle_def modes_def)
  qed
  from step inside outside show ?thesis
    by blast
qed

theorem handleModeCycle_cyclic_witness:
  "''quiz'' \<in> set modes
   \<and> handleModeCycle (handleModeCycle (handleModeCycle ''quiz'')) = ''quiz''
   \<and> ''text_summary'' \<notin> set modes
   \<and> handleModeCycle ''text_summary'' = ''qa''"
  using handleModeCycle_cyclic [of "''quiz''"] handleModeCycle_cyclic [of "''text_summary''"]
  by (simp add: modes_def)

text \<open>
  C9, as the code has it.  \<open>handleChapterToggle\<close> removes the chapter when it is selected
  and appends it otherwise.  For a selection without repetition, toggling the same chapter
  twice gives a permutation of the selection in which the other chapters keep their
  order: the chapter itself comes back at the end when it was selected, and the list is the
  original one when it was not.  For any selection the set of chapters and the order of the
  other chapters are kept; every occurrence of a repeated chapter is removed and one is
  appended.
\<close>

theorem handleChapterToggle_twice:
  "(chapter \<in> set selectedChapters \<longrightarrow>
      handleChapterToggle selectedChapters chapter
        = filter (\<lambda>c. c \<noteq> chapter) selectedChapters)
   \<and> (chapter \<notin> set selectedChapters \<longrightarrow>
      handleChapterToggle selectedChapters chapter = selectedChapters @ [chapter])
   \<and> set (handleChapterToggle (handleChapterToggle selectedChapters chapter) chapter)
       = set selectedChapters
   \<and> filter (\<lambda>c. c \<noteq> chapter)
        (handleChapterToggle (handleChapterToggle selectedChapters chapter) chapter)
       = filter (\<lambda>c. c \<noteq> chapter) selectedChapters
   \<and> (chapter \<notin> set selectedChapters \<longrightarrow>
      handleChapterToggle (handleChapterToggle selectedChapters chapter) chapter
        = selectedChapters)
   \<and> (distinct selectedChapters \<longrightarrow>
      mset (handleChapterToggle (handleChapterToggle selectedChapters chapter) chapter)
        = mset selectedChapters)"
proof (cases "chapter \<in> set selectedChapters")
  case True
  let ?rest = "filter (\<lambda>c. c \<noteq> chapter) selectedChapters"
  have once: "handleChapterToggle selectedChapters chapter = ?rest"
    using True by (simp add: handleChapterToggle_def)
  have twice: "handleChapterToggle ?rest chapter = ?rest @ [chapter]"
    by (simp add: handleChapterToggle_def)
  have same_set: "set (?rest @ [chapter]) = set selectedChapters"
    using True by auto
  have perm: "mset (?rest @ [chapter]) = mset selectedChapters" if "distinct selectedChapters"
  proof -
    have one: "filter (\<lambda>c. c = chapter) selectedChapters = [chapter]"
      using that True by (induction selectedChapters) (auto simp: filter_empty_conv)
    have "mset selectedChapters
        = filter_mset (\<lambda>c. c \<noteq> chapter) (mset selectedChapters)
          + filter_mset (\<lambda>c. \<not> c \<noteq> chapter) (mset selectedChapters)"
      by (rule multiset_partition)
    also have "filter_mset (\<lambda>c. \<not> c \<noteq> chapter) (mset selectedChapters)
        = mset (filter (\<lambda>c. c = chapter) selectedChapters)"
      by simp
    finally have "mset selectedChapters = mset ?rest + mset [chapter]"
      by (simp only: one mset_filter)
    then show ?thesis
      by simp
  qed
  from True once twice same_set perm show ?thesis
    by simp
next
  case False
  have once: "handleChapterToggle selectedChapters chapter = selectedChapters @ [chapter]"
    using False by (simp add: handleChapterToggle_def)
  have twice: "handleChapterToggle (selectedChapters @ [chapter]) chapter = selectedChapters"
    using False by (auto simp: handleChapterToggle_def filter_id_conv)
  from False once twice show ?thesis
    by simp
qed

theorem handleChapterToggle_twice_witness:
  "''Chapter 2'' \<in> set [''Chapter 1'', ''Chapter 2'', ''Chapter 3'']
   \<and> handleChapterToggle [''Chapter 1'', ''Chapter 2'', ''Chapter 3''] ''Chapter 2''
       = [''Chapter 1'', ''Chapter 3'']
   \<and> ''Chapter 4'' \<notin> set [''Chapter 1'', ''Chapter 2'', ''Chapter 3'']
   \<and> handleChapterToggle
        (handleChapterToggle [''Chapter 1'', ''Chapter 2'', ''Chapter 3''] ''Chapter 4'')
        ''Chapter 4'' = [''Chapter 1'', ''Chapter 2'', ''Chapter 3'']
   \<and> distinct [''Chapter 1'', ''Chapter 2'', ''Chapter 3'']
   \<and> mset (handleChapterToggle
        (handleChapterToggle [''Chapter 1'', ''Chapter 2'', ''Chapter 3''] ''Chapter 2'')
        ''Chapter 2'') = mset [''Chapter 1'', ''Chapter 2'', ''Chapter 3'']"
  using handleChapterToggle_twice [of "''Chapter 2''" "[''Chapter 1'', ''Chapter 2'', ''Chapter 3'']"]
        handleChapterToggle_twice [of "''Chapter 4''" "[''Chapter 1'', ''Chapter 2'', ''Chapter 3'']"]
  by (simp add: handleChapterToggle_def)

text \<open>
  A selection that holds a chapter twice loses one occurrence: the first toggle removes
  both, the second appends one.  Three chapters go in and two come out.
\<close>

theorem handleChapterToggle_twice_counterexample:
  "handleChapterToggle [''Chapter 1'', ''Chapter 2'', ''Chapter 1''] ''Chapter 1''
     = [''Chapter 2'']
   \<and> handleChapterToggle
        (handleChapterToggle [''Chapter 1'', ''Chapter 2'', ''Chapter 1''] ''Chapter 1'')
        ''Chapter 1'' = [''Chapter 2'', ''Chapter 1'']
   \<and> mset (handleChapterToggle
        (handleChapterToggle [''Chapter 1'', ''Chapter 2'', ''Chapter 1''] ''Chapter 1'')
        ''Chapter 1'') \<noteq> mset [''Chapter 1'', ''Chapter 2'', ''Chapter 1'']"
proof -
  have once: "handleChapterToggle [''Chapter 1'', ''Chapter 2'', ''Chapter 1''] ''Chapter 1''
     = [''Chapter 2'']"
    by (simp add: handleChapterToggle_def)
  have twice: "handleChapterToggle [''Chapter 2''] ''Chapter 1'' = [''Chapter 2'', ''Chapter 1'']"
    by (simp add: handleChapterToggle_def)
  have "size (mset [''Chapter 2'', ''Chapter 1''])
      \<noteq> size (mset [''Chapter 1'', ''Chapter 2'', ''Chapter 1''])"
    by simp
  then have "mset [''Chapter 2'', ''Chapter 1''] \<noteq> mset [''Chapter 1'', ''Chapter 2'', ''Chapter 1'']"
    by (rule contrapos_nn) (simp only:)
  with once twice show ?thesis
    by (simp only: simp_thms)
qed

section \<open>Citations\<close>

lemma array_get_in_range:
  "1 \<le> n \<Longrightarrow> n \<le> int (length xs) \<Longrightarrow> array_get xs (n - 1) = Some (xs ! nat (n - 1))"
  by (simp add: array_get_def)

lemma array_get_out_of_range:
  "n < 1 \<Longrightarrow> array_get xs (n - 1) = None"
  by (simp add: array_get_def)

text \<open>
  C2, as the code has it.  For a marker \<open>[n]\<close> with \<open>1 \<le> n \<le> L\<close>, where \<open>L\<close> is the length
  of the sources attached to the message, the click resolves to the source at position
  \<open>n - 1\<close>.  With a seek callback it seeks to the start time of that source.  Without one it
  opens the URL made of the source's \<open>video_url\<close>, the text \<open>&t=\<close>, the start time and the
  letter \<open>s\<close>.  The handler of \<open>VideoSummaryDisplay\<close> does the same.
\<close>

theorem handleCitationClick_resolves:
  assumes "1 \<le> n" and "n \<le> int (length ss)"
  shows "handleCitationClick other True n (Some ss)
           = [SeekVideo (sr_start_time (ss ! nat (n - 1)))]
   \<and> handleCitationClick other False n (Some ss)
           = [WindowOpen (sr_video_url (ss ! nat (n - 1)) @ ''&t=''
                @ Number_toString other (sr_start_time (ss ! nat (n - 1))) @ ''s'')]
   \<and> summary_handleCitationClick other True n (Some ss)
           = [SeekVideo (sr_start_time (ss ! nat (n - 1)))]
   \<and> summary_handleCitationClick other False n (Some ss)
           = [WindowOpen (sr_video_url (ss ! nat (n - 1)) @ ''&t=''
                @ Number_toString other (sr_start_time (ss ! nat (n - 1))) @ ''s'')]"
proof -
  from assms have "array_get ss (n - 1) = Some (ss ! nat (n - 1))"
    by (rule array_get_in_range)
  with assms show ?thesis
    by (simp add: handleCitationClick_def summary_handleCitationClick_def)
qed

theorem handleCitationClick_resolves_witness:
  "(1::int) \<le> 2 \<and> (2::int) \<le> int (length [sample_source, second_source])
   \<and> handleCitationClick unused_toString True 2 (Some [sample_source, second_source])
        = [SeekVideo (Fin 7)]
   \<and> handleCitationClick unused_toString False 2 (Some [sample_source, second_source])
        = [WindowOpen ''https://www.youtube.com/watch?v=xyz&t=7s'']"
proof -
  have a: "(1::int) \<le> 2" and b: "(2::int) \<le> int (length [sample_source, second_source])"
    by simp_all
  have "Number_toString unused_toString (Fin 7) = ''7''"
    by code_simp
  with handleCitationClick_resolves [OF a b, of unused_toString] show ?thesis
    by (simp add: second_source_def)
qed

text \<open>
  The URL opened carries the start time after \<open>&t=\<close>: it does not begin with the
  \<open>video_url\<close> followed by \<open>?t=\<close>.
\<close>

theorem handleCitationClick_resolves_counterexample:
  "handleCitationClick unused_toString False 1 (Some [sample_source])
     = [WindowOpen ''https://www.youtube.com/watch?v=abc&t=42s'']
   \<and> \<not> prefix (sr_video_url sample_source @ ''?t='') ''https://www.youtube.com/watch?v=abc&t=42s''"
  by code_simp

lemma match_here_shorter:
  assumes "match_here s = Some (ds, r)"
  shows "length r < length s"
proof -
  from assms obtain cs where s: "s = CHR ''['' # cs" and d: "dropWhile is_digit cs = CHR '']'' # r"
    by (auto simp: match_here_def split: list.splits if_splits)
  have "length r < length (dropWhile is_digit cs)"
    by (simp add: d)
  also have "\<dots> \<le> length cs"
    by (rule length_dropWhile_le)
  finally show ?thesis
    by (simp add: s)
qed

lemma citation_loop_Nil:
  "citation_loop pending [] parts = parts @ (if pending \<noteq> [] then [TextPart pending] else [])"
  by (simp add: citation_loop.simps [of pending "[]"])

lemma citation_loop_match:
  "match_here (c # cs) = Some (ds, r) \<Longrightarrow>
   citation_loop pending (c # cs) parts =
     citation_loop [] r (parts @ (if pending \<noteq> [] then [TextPart pending] else [])
                               @ [CitationButton (parseInt ds)])"
  by (simp add: citation_loop.simps [of pending "c # cs"])

lemma citation_loop_no_match:
  "match_here (c # cs) = None \<Longrightarrow>
   citation_loop pending (c # cs) parts = citation_loop (pending @ [c]) cs parts"
  by (simp add: citation_loop.simps [of pending "c # cs"])

lemma citation_loop_acc:
  "citation_loop pending s parts = parts @ citation_loop pending s []"
proof (induction "length s" arbitrary: pending s parts rule: less_induct)
  case less
  show ?case
  proof (cases s)
    case Nil
    then show ?thesis
      by (simp add: citation_loop_Nil)
  next
    case (Cons c cs)
    show ?thesis
    proof (cases "match_here s")
      case None
      have shorter: "length cs < length s"
        by (simp add: Cons)
      have "citation_loop pending s parts = citation_loop (pending @ [c]) cs parts"
        using None Cons by (simp add: citation_loop_no_match)
      also have "\<dots> = parts @ citation_loop (pending @ [c]) cs []"
        by (rule less [OF shorter])
      also have "citation_loop (pending @ [c]) cs [] = citation_loop pending s []"
        using None Cons by (simp add: citation_loop_no_match)
      finally show ?thesis .
    next
      case (Some m)
      obtain ds r where m: "m = (ds, r)"
        by (cases m)
      let ?new = "(if pending \<noteq> [] then [TextPart pending] else []) @ [CitationButton (parseInt ds)]"
      have shorter: "length r < length s"
        using Some m by (simp add: match_here_shorter)
      have "citation_loop pending s parts = citation_loop [] r (parts @ ?new)"
        using Cons Some m by (simp add: citation_loop_match)
      also have "\<dots> = (parts @ ?new) @ citation_loop [] r []"
        by (rule less [OF shorter])
      also have "\<dots> = parts @ (?new @ citation_loop [] r [])"
        by simp
      also have "?new @ citation_loop [] r [] = citation_loop [] r ?new"
        by (rule less [OF shorter, symmetric])
      also have "citation_loop [] r ?new = citation_loop pending s []"
        using Cons Some m by (simp add: citation_loop_match)
      finally show ?thesis .
    qed
  qed
qed

lemma is_digit_bracket: "\<not> is_digit (CHR ''['')" "\<not> is_digit (CHR '']'')"
  by (simp_all add: is_digit_def)

lemma match_here_marker:
  assumes "ds \<noteq> []" and "\<forall>c\<in>set ds. is_digit c"
  shows "match_here (''['' @ ds @ '']'' @ post) = Some (ds, post)"
proof -
  have "takeWhile is_digit (ds @ CHR '']'' # post) = ds"
    using assms(2) by (simp add: takeWhile_append2 is_digit_bracket)
  moreover have "dropWhile is_digit (ds @ CHR '']'' # post) = CHR '']'' # post"
    using assms(2) by (simp add: dropWhile_append2 is_digit_bracket)
  ultimately show ?thesis
    using assms(1) by (simp add: match_here_def)
qed

lemma match_here_before_marker:
  assumes "match_here (c # pre @ ''['' @ rest) = Some (ds', r)"
  shows "\<exists>pre'. r = pre' @ ''['' @ rest \<and> length pre' < length (c # pre)"
proof -
  from assms have d: "dropWhile is_digit (pre @ CHR ''['' # rest) = CHR '']'' # r"
    by (auto simp: match_here_def split: list.splits if_splits)
  show ?thesis
  proof (cases "\<forall>x\<in>set pre. is_digit x")
    case True
    then have "dropWhile is_digit (pre @ CHR ''['' # rest) = CHR ''['' # rest"
      by (simp add: dropWhile_append2 is_digit_bracket)
    with d show ?thesis
      by simp
  next
    case False
    then have "dropWhile is_digit (pre @ CHR ''['' # rest) = dropWhile is_digit pre @ CHR ''['' # rest"
      and ne: "dropWhile is_digit pre \<noteq> []"
      by (auto simp: dropWhile_append1 dropWhile_eq_Nil_conv)
    with d obtain r0 where r0: "dropWhile is_digit pre = CHR '']'' # r0" and r: "r = r0 @ CHR ''['' # rest"
      by (cases "dropWhile is_digit pre") auto
    have "length r0 < length (dropWhile is_digit pre)"
      by (simp add: r0)
    also have "\<dots> \<le> length pre"
      by (rule length_dropWhile_le)
    finally show ?thesis
      using r by auto
  qed
qed

lemma marker_is_button:
  assumes "ds \<noteq> []" and "\<forall>c\<in>set ds. is_digit c"
  shows "CitationButton (parseInt ds)
           \<in> set (citation_loop pending (pre @ ''['' @ ds @ '']'' @ post) parts)"
proof (induction "length pre" arbitrary: pending pre parts rule: less_induct)
  case less
  show ?case
  proof (cases pre)
    case Nil
    have "citation_loop pending (''['' @ ds @ '']'' @ post) parts
        = citation_loop [] post (parts @ (if pending \<noteq> [] then [TextPart pending] else [])
                               @ [CitationButton (parseInt ds)])"
      using match_here_marker [OF assms, of post] by (simp add: citation_loop_match)
    also have "\<dots> = (parts @ (if pending \<noteq> [] then [TextPart pending] else [])
                               @ [CitationButton (parseInt ds)]) @ citation_loop [] post []"
      by (rule citation_loop_acc)
    finally show ?thesis
      using Nil by simp
  next
    case (Cons c pre')
    show ?thesis
    proof (cases "match_here (c # pre' @ ''['' @ ds @ '']'' @ post)")
      case None
      then have "citation_loop pending (pre @ ''['' @ ds @ '']'' @ post) parts
          = citation_loop (pending @ [c]) (pre' @ ''['' @ ds @ '']'' @ post) parts"
        using Cons by (simp add: citation_loop_no_match)
      moreover have "length pre' < length pre"
        by (simp add: Cons)
      ultimately show ?thesis
        using less by simp
    next
      case (Some m)
      obtain ds' r where m: "m = (ds', r)"
        by (cases m)
      from match_here_before_marker [of c pre' "ds @ '']'' @ post" ds' r] Some m
      obtain pre'' where r: "r = pre'' @ ''['' @ ds @ '']'' @ post"
        and shorter: "length pre'' < length pre"
        using Cons by auto
      have "citation_loop pending (pre @ ''['' @ ds @ '']'' @ post) parts
          = citation_loop [] r (parts @ (if pending \<noteq> [] then [TextPart pending] else [])
                               @ [CitationButton (parseInt ds')])"
        using Some m Cons by (simp add: citation_loop_match)
      with less [OF shorter] r show ?thesis
        by simp
    qed
  qed
qed

lemma handleCitationClick_out_of_range:
  assumes "n > int (length ss) \<or> n < 1"
  shows "handleCitationClick other onSeekVideo n (Some ss) = []"
  using assms by (auto simp: handleCitationClick_def array_get_out_of_range)

text \<open>
  C3, as the code has it.  Take a marker \<open>[n]\<close> (a bracket, digits, a bracket) anywhere in a
  text node, with \<open>n\<close> outside the range of the sources: more than their number, or less
  than one.  When the message has sources the marker is not left as text: it is rendered as
  a citation button like every other marker.  Only a message without sources keeps its
  text as it is.  Clicking the button does nothing: no seek and no window is opened.
\<close>

theorem out_of_range_citation:
  assumes "ds \<noteq> []" and "\<forall>c\<in>set ds. is_digit c"
    and "parseInt ds > int (length ss) \<or> parseInt ds < 1"
  shows "(ss \<noteq> [] \<longrightarrow>
           (\<exists>parts. render_text_node (pre @ ''['' @ ds @ '']'' @ post) (Some ss)
                       = WithCitations (Fragment parts)
                    \<and> CitationButton (parseInt ds) \<in> set parts))
   \<and> (ss = [] \<longrightarrow>
           render_text_node (pre @ ''['' @ ds @ '']'' @ post) (Some ss)
             = Literal (pre @ ''['' @ ds @ '']'' @ post))
   \<and> render_text_node (pre @ ''['' @ ds @ '']'' @ post) None
        = Literal (pre @ ''['' @ ds @ '']'' @ post)
   \<and> onClick other onSeekVideo ss (CitationButton (parseInt ds)) = []
   \<and> handleCitationClick other onSeekVideo (parseInt ds) None = []"
proof -
  let ?text = "pre @ ''['' @ ds @ '']'' @ post"
  let ?parts = "citation_loop [] ?text []"
  have button: "CitationButton (parseInt ds) \<in> set ?parts"
    using assms(1,2) by (rule marker_is_button)
  then have "length ?parts > 0"
    by (cases ?parts) auto
  then have "processTextWithCitations ?text ss = Fragment ?parts"
    by (simp add: processTextWithCitations_def)
  then have shown: "render_text_node ?text (Some ss) = WithCitations (Fragment ?parts)"
    if "ss \<noteq> []"
    using that by (simp add: render_text_node_def)
  have silent: "onClick other onSeekVideo ss (CitationButton (parseInt ds)) = []"
    using assms(3) by (simp add: handleCitationClick_out_of_range)
  have none: "handleCitationClick other onSeekVideo (parseInt ds) None = []"
    by (simp add: handleCitationClick_def)
  have plain: "render_text_node ?text None = Literal ?text"
    "ss = [] \<Longrightarrow> render_text_node ?text (Some ss) = Literal ?text"
    by (simp_all add: render_text_node_def)
  from button shown silent none plain show ?thesis
    by blast
qed

theorem out_of_range_citation_witness:
  "''5'' \<noteq> [] \<and> list_all is_digit ''5'' \<and> parseInt ''5'' > int (length [sample_source])
   \<and> [sample_source] \<noteq> []
   \<and> render_text_node ''see [5]'' (Some [sample_source])
        = WithCitations (Fragment [TextPart ''see '', CitationButton 5])
   \<and> onClick unused_toString False [sample_source] (CitationButton 5) = []
   \<and> parseInt ''5'' > int (length ([] :: SourceReference list))
   \<and> render_text_node ''see [5]'' (Some []) = Literal ''see [5]''"
proof -
  have a: "''5'' \<noteq> []" and b: "\<forall>c\<in>set ''5''. is_digit c"
    and c: "parseInt ''5'' > int (length [sample_source]) \<or> parseInt ''5'' < 1"
    and c': "parseInt ''5'' > int (length ([] :: SourceReference list)) \<or> parseInt ''5'' < 1"
    by (simp_all add: is_digit_def parseInt_def)
  have five: "parseInt ''5'' = 5"
    by (simp add: parseInt_def)
  have "render_text_node ''see [5]'' (Some [sample_source])
        = WithCitations (Fragment [TextPart ''see '', CitationButton 5])"
    by code_simp
  with out_of_range_citation [OF a b c, of "''see ''" "[]" unused_toString False]
    out_of_range_citation [OF a b c', of "''see ''" "[]" unused_toString False] five b
  show ?thesis
    by (simp add: list_all_iff)
qed

text \<open>
  With one source attached, the marker \<open>[5]\<close> is out of range, and it is rendered as a
  button, not as the text it was.
\<close>

theorem out_of_range_citation_counterexample:
  "int (length [sample_source]) < 5
   \<and> render_text_node ''see [5]'' (Some [sample_source])
        = WithCitations (Fragment [TextPart ''see '', CitationButton 5])
   \<and> render_text_node ''see [5]'' (Some [sample_source])
        \<noteq> WithCitations (Fragment [TextPart ''see [5]''])
   \<and> render_text_node ''see [5]'' (Some [sample_source]) \<noteq> Literal ''see [5]''"
  by code_simp

section \<open>Server-sent events\<close>

lemma split_nl_not_Nil: "split_nl s \<noteq> []"
  by (induction s) (auto split: list.splits)

lemma split_nl_append:
  "split_nl (a @ b) = butlast (split_nl a) @ split_nl (last (split_nl a) @ b)"
proof (induction a)
  case Nil
  show ?case by simp
next
  case (Cons c cs)
  obtain l ls where cs: "split_nl cs = l # ls"
    using split_nl_not_Nil [of cs] by (cases "split_nl cs") auto
  show ?case
  proof (cases "c = CHR 0x0A")
    case True
    with Cons cs show ?thesis by simp
  next
    case False
    show ?thesis
    proof (cases ls)
      case Nil
      obtain m ms where lb: "split_nl (l @ b) = m # ms"
        using split_nl_not_Nil [of "l @ b"] by (cases "split_nl (l @ b)") auto
      with False Cons cs Nil show ?thesis by simp
    next
      case (Cons x xs)
      with False Cons.IH cs show ?thesis by simp
    qed
  qed
qed

lemma split_nl_no_newline: "CHR 0x0A \<notin> set s \<Longrightarrow> split_nl s = [s]"
  by (induction s) auto

lemma last_split_nl_no_newline: "CHR 0x0A \<notin> set (last (split_nl s))"
proof (induction s)
  case Nil
  show ?case by simp
next
  case (Cons c cs)
  obtain l ls where cs: "split_nl cs = l # ls"
    using split_nl_not_Nil [of cs] by (cases "split_nl cs") auto
  with Cons show ?case
    by (cases ls) auto
qed

lemma yield_lines_map_filter: "yield_lines parse lines = List.map_filter (event_of_line parse) lines"
  by (induction lines) (auto simp: List.map_filter_simps event_of_line_def split: option.splits)

lemma map_filter_append: "List.map_filter f (xs @ ys) = List.map_filter f xs @ List.map_filter f ys"
  by (simp add: List.map_filter_def)

lemma streamSSE_loop_lines:
  assumes "CHR 0x0A \<notin> set buffer"
  shows "streamSSE_loop parse buffer chunks
       = List.map_filter (event_of_line parse) (butlast (split_nl (buffer @ concat chunks)))"
  using assms
proof (induction chunks arbitrary: buffer)
  case Nil
  then show ?case
    by (simp add: split_nl_no_newline List.map_filter_simps)
next
  case (Cons chunk chunks)
  let ?lines = "split_nl (buffer @ chunk)"
  have rest: "streamSSE_loop parse (last ?lines) chunks
       = List.map_filter (event_of_line parse) (butlast (split_nl (last ?lines @ concat chunks)))"
    by (rule Cons.IH) (rule last_split_nl_no_newline)
  have "split_nl (buffer @ concat (chunk # chunks))
       = butlast ?lines @ split_nl (last ?lines @ concat chunks)"
    using split_nl_append [of "buffer @ chunk" "concat chunks"] by simp
  then have "butlast (split_nl (buffer @ concat (chunk # chunks)))
       = butlast ?lines @ butlast (split_nl (last ?lines @ concat chunks))"
    by (simp add: butlast_append split_nl_not_Nil)
  with rest show ?case
    by (simp add: take_lines_def Let_def yield_lines_map_filter map_filter_append)
qed

lemma done_line: "(prefix ''data: '' line \<and> drop 6 line = ''[DONE]'') = (line = ''data: [DONE]'')"
proof
  assume a: "prefix ''data: '' line \<and> drop 6 line = ''[DONE]''"
  then obtain r where "line = ''data: '' @ r"
    by (auto simp: prefix_def)
  with a show "line = ''data: [DONE]''"
    by simp
next
  assume "line = ''data: [DONE]''"
  then show "prefix ''data: '' line \<and> drop 6 line = ''[DONE]''"
    by simp
qed

lemma process_lines_dispatch:
  "process_lines opts parse lines v =
    (case dispatch_all opts (List.map_filter (event_of_line parse) (before_done lines)) v of
       (v', calls) \<Rightarrow>
         if ''data: [DONE]'' \<in> set lines then (True, v', calls @ [onDone_call v'])
         else (False, v', calls))"
proof (induction lines arbitrary: v)
  case Nil
  show ?case
    by (simp add: before_done_def List.map_filter_simps)
next
  case (Cons line lines)
  show ?case
  proof (cases "line = ''data: [DONE]''")
    case True
    then show ?thesis
      by (simp add: before_done_def List.map_filter_simps)
  next
    case False
    then have nd: "\<not> (prefix ''data: '' line \<and> drop 6 line = ''[DONE]'')"
      by (simp add: done_line)
    show ?thesis
    proof (cases "event_of_line parse line")
      case None
      with False nd Cons.IH [of v] show ?thesis
        by (auto simp: before_done_def List.map_filter_simps event_of_line_def split: if_splits)
    next
      case (Some e)
      then have p: "prefix ''data: '' line" and pe: "parse (drop 6 line) = Some e"
        by (auto simp: event_of_line_def split: if_splits)
      obtain v1 c1 where d: "dispatch opts e v = (v1, c1)"
        by (cases "dispatch opts e v")
      from False nd p pe d Some Cons.IH [of v1] show ?thesis
        by (auto simp: before_done_def List.map_filter_simps split: prod.splits)
    qed
  qed
qed

lemma dispatch_all_append:
  "dispatch_all opts (xs @ ys) v =
    (case dispatch_all opts xs v of
       (v', calls) \<Rightarrow> (case dispatch_all opts ys v' of (v'', calls') \<Rightarrow> (v'', calls @ calls')))"
  by (induction xs arbitrary: v) (auto split: prod.splits)

lemma before_done_append:
  "before_done (xs @ ys) =
     (if ''data: [DONE]'' \<in> set xs then before_done xs else xs @ before_done ys)"
  by (induction xs) (auto simp: before_done_def)

lemma read_loop_dispatch:
  assumes "CHR 0x0A \<notin> set buffer"
  shows "read_loop opts parse chunks buffer v =
    (case dispatch_all opts
            (List.map_filter (event_of_line parse)
               (before_done (butlast (split_nl (buffer @ concat chunks))))) v of
       (v', calls) \<Rightarrow> calls @ [onDone_call v'])"
  using assms
proof (induction chunks arbitrary: buffer v)
  case Nil
  then show ?case
    by (simp add: split_nl_no_newline before_done_def List.map_filter_simps)
next
  case (Cons chunk chunks)
  let ?lines = "split_nl (buffer @ chunk)"
  let ?here = "butlast ?lines"
  let ?later = "butlast (split_nl (last ?lines @ concat chunks))"
  have "split_nl (buffer @ concat (chunk # chunks))
       = ?here @ split_nl (last ?lines @ concat chunks)"
    using split_nl_append [of "buffer @ chunk" "concat chunks"] by simp
  then have all_lines: "butlast (split_nl (buffer @ chunk @ concat chunks)) = ?here @ ?later"
    by (simp add: butlast_append split_nl_not_Nil)
  obtain v1 c1 where here: "dispatch_all opts (List.map_filter (event_of_line parse) (before_done ?here)) v = (v1, c1)"
    by (cases "dispatch_all opts (List.map_filter (event_of_line parse) (before_done ?here)) v")
  show ?case
  proof (cases "''data: [DONE]'' \<in> set ?here")
    case True
    with here show ?thesis
      by (simp add: all_lines before_done_append take_lines_def Let_def process_lines_dispatch)
  next
    case False
    have later: "read_loop opts parse chunks (last ?lines) v1 =
      (case dispatch_all opts (List.map_filter (event_of_line parse) (before_done ?later)) v1 of
         (v', calls) \<Rightarrow> calls @ [onDone_call v'])"
      by (rule Cons.IH) (rule last_split_nl_no_newline)
    from False have "before_done ?here = ?here"
      by (auto simp: before_done_def)
    with False here later show ?thesis
      by (simp add: all_lines before_done_append take_lines_def Let_def process_lines_dispatch
          map_filter_append dispatch_all_append split: prod.splits)
  qed
qed

lemma token_text_Cons:
  "token_text (e # es) =
     (if pl_type e = Some ''token'' then (case pl_content e of None \<Rightarrow> [] | Some c \<Rightarrow> c) else [])
     @ token_text es"
  by (simp add: token_text_def)

lemma dispatch_content:
  "v_content (fst (dispatch opts e v)) =
     v_content v @ (if pl_type e = Some ''token'' then (case pl_content e of None \<Rightarrow> [] | Some c \<Rightarrow> c) else [])"
  by (simp add: dispatch_def or_str_def split: option.splits)

lemma dispatch_all_content:
  "v_content (fst (dispatch_all opts es v)) = v_content v @ token_text es"
proof (induction es arbitrary: v)
  case Nil
  show ?case by (simp add: token_text_def)
next
  case (Cons e es)
  obtain v1 c1 where d: "dispatch opts e v = (v1, c1)"
    by (cases "dispatch opts e v")
  have "v_content (fst (dispatch_all opts (e # es) v)) = v_content (fst (dispatch_all opts es v1))"
    by (simp add: d split: prod.splits)
  also have "\<dots> = v_content v1 @ token_text es"
    by (rule Cons.IH)
  also have "v_content v1 = v_content (fst (dispatch opts e v))"
    by (simp add: d)
  finally show ?case
    by (simp add: dispatch_content token_text_Cons)
qed

lemma dispatch_no_done: "list_all (\<lambda>c. \<not> is_OnDone c) (snd (dispatch opts e v))"
  by (simp add: dispatch_def)

lemma dispatch_all_no_done: "list_all (\<lambda>c. \<not> is_OnDone c) (snd (dispatch_all opts es v))"
proof (induction es arbitrary: v)
  case Nil
  show ?case by simp
next
  case (Cons e es)
  obtain v1 c1 where d: "dispatch opts e v = (v1, c1)"
    by (cases "dispatch opts e v")
  with dispatch_no_done [of opts e v] Cons.IH [of v1] show ?case
    by (auto split: prod.splits)
qed

text \<open>
  C4.  When the body of the response is read, \<open>startStream\<close> calls \<open>onDone\<close> once, as its
  last callback, whether the sentinel \<open>[DONE]\<close> or the end of the stream triggers it.  The
  content it passes is the concatenation, in order, of the content fields of the token
  events processed (those of the lines before the sentinel), a missing field counting as
  the empty string; no other event contributes.
\<close>

theorem startStream_content:
  "\<exists>calls srcs sid qid.
     startStream opts parse (Response True status (Some chunks))
       = calls @ [OnDone (token_text (processed_events parse chunks)) srcs sid qid]
     \<and> list_all (\<lambda>c. \<not> is_OnDone c) calls"
proof -
  let ?events = "processed_events parse chunks"
  obtain v' calls where d: "dispatch_all opts ?events init_vars = (v', calls)"
    by (cases "dispatch_all opts ?events init_vars")
  have "read_loop opts parse chunks [] init_vars = calls @ [onDone_call v']"
    using read_loop_dispatch [of "[]" opts parse chunks init_vars] d
    by (simp add: processed_events_def complete_lines_def)
  moreover have "v_content v' = token_text ?events"
    using dispatch_all_content [of opts ?events init_vars] d by (simp add: init_vars_def)
  moreover have "list_all (\<lambda>c. \<not> is_OnDone c) calls"
    using dispatch_all_no_done [of opts ?events init_vars] d by simp
  ultimately show ?thesis
    by (simp add: startStream_def onDone_call_def)
qed

text \<open>
  C7, as the code has it.  \<open>streamSSE\<close> yields exactly the events of the complete lines of
  the stream that begin with \<open>data: \<close> and whose payload parses, in order; every other
  line is skipped and nothing stops the stream.  \<open>startStream\<close> of \<open>useSSE\<close> dispatches
  the events of such lines too, but only of the lines before the first \<open>data: [DONE]\<close>
  line: that line ends the stream, and \<open>onDone\<close> follows the callbacks of the events.
\<close>

theorem sse_parsers_lines:
  "streamSSE parse (Response True status (Some chunks))
     = Inr (List.map_filter (event_of_line parse) (complete_lines chunks))
   \<and> startStream opts parse' (Response True status (Some chunks))
     = snd (dispatch_all opts (processed_events parse' chunks) init_vars)
       @ [onDone_call (fst (dispatch_all opts (processed_events parse' chunks) init_vars))]"
proof -
  have "streamSSE_loop parse [] chunks
      = List.map_filter (event_of_line parse) (complete_lines chunks)"
    using streamSSE_loop_lines [of "[]" parse chunks] by (simp add: complete_lines_def)
  moreover have "read_loop opts parse' chunks [] init_vars
     = snd (dispatch_all opts (processed_events parse' chunks) init_vars)
       @ [onDone_call (fst (dispatch_all opts (processed_events parse' chunks) init_vars))]"
    using read_loop_dispatch [of "[]" opts parse' chunks init_vars]
    by (simp add: processed_events_def complete_lines_def split: prod.splits)
  ultimately show ?thesis
    by (simp add: streamSSE_def startStream_def)
qed

text \<open>
  The payload \<open>[DONE]\<close> does not parse as JSON.  \<open>streamSSE\<close> skips the line and yields the
  token of the next one; \<open>startStream\<close> stops at it and never reads the next line.
\<close>

theorem sse_parsers_counterexample:
  "sample_parse ''[DONE]'' = None
   \<and> complete_lines done_first = [''data: [DONE]'', ''data: '' @ token_json]
   \<and> streamSSE sample_parse (Response True 200 (Some done_first)) = Inr [token_payload]
   \<and> startStream sample_opts sample_parse (Response True 200 (Some done_first))
        = [OnDone [] None None None]"
  by code_simp

text \<open>Lines cut by the chunks, a comment and broken JSON: both parsers on one stream.\<close>

lemma two_chunks_example:
  "complete_lines two_chunks = ['': ping'', ''data: '' @ token_json, ''data: {broken'', ''data: '' @ token_json]
   \<and> streamSSE sample_parse (Response True 200 (Some two_chunks)) = Inr [token_payload, token_payload]
   \<and> startStream sample_opts sample_parse (Response True 200 (Some two_chunks))
        = [OnToken ''Hi'', OnToken ''Hi'', OnDone ''HiHi'' None None None]"
  by code_simp

section \<open>Double-precision arithmetic\<close>

text \<open>
  What the proofs about scores and times need of rounding: the exponent found by \<open>flog2\<close>
  brackets its argument, the result of rounding is within half a unit in the last place,
  and integers up to \<open>2^53\<close> are not changed.
\<close>

lemma pow2_powi: "pow2 e = 2 powi e"
  by (simp add: pow2_def power_int_def field_simps)

lemma pow2_pos: "0 < pow2 e"
  by (simp add: pow2_powi)

lemma pow2_add: "pow2 (a + b) = pow2 a * pow2 b"
  by (simp add: pow2_powi power_int_add)

lemma pow2_nat: "pow2 (int n) = 2 ^ n"
  by (simp add: pow2_def)

lemma pow2_mono: "a \<le> b \<Longrightarrow> pow2 a \<le> pow2 b"
  by (simp add: pow2_powi power_int_increasing)

lemma pow2_less_cancel: "pow2 a < pow2 b \<Longrightarrow> a < b"
  using pow2_mono [of b a] by (cases "a < b") auto

lemma ilog2_bounds: "1 \<le> n \<Longrightarrow> 0 \<le> ilog2 n \<and> pow2 (ilog2 n) \<le> of_int n \<and> of_int n < pow2 (ilog2 n + 1)"
proof (induction n rule: ilog2.induct)
  case (1 n)
  show ?case
  proof (cases "n < 2")
    case True
    with "1.prems" have "n = 1" by simp
    then show ?thesis
      by (simp add: ilog2.simps pow2_def)
  next
    case False
    then have half: "1 \<le> n div 2" by simp
    from "1.IH" [OF False half]
    have ih: "0 \<le> ilog2 (n div 2)" "pow2 (ilog2 (n div 2)) \<le> of_int (n div 2)"
      "of_int (n div 2) < pow2 (ilog2 (n div 2) + 1)"
      by simp_all
    have eq: "ilog2 n = 1 + ilog2 (n div 2)"
      using False by (simp add: ilog2.simps [of n])
    obtain j where j: "ilog2 (n div 2) = int j"
      using ih(1) by (metis nat_0_le)
    from ih(2) j have "rat_of_int (2 ^ j) \<le> rat_of_int (n div 2)"
      by (simp add: pow2_nat)
    then have "(2::int) ^ j \<le> n div 2"
      by (simp only: of_int_le_iff)
    then have lo: "(2::int) ^ (j + 1) \<le> n"
      by simp
    from ih(3) j have "rat_of_int (n div 2) < rat_of_int (2 ^ (j + 1))"
      using pow2_nat [of "j + 1"] by (simp add: add.commute)
    then have "n div 2 < (2::int) ^ (j + 1)"
      by (simp only: of_int_less_iff)
    then have hi: "n < (2::int) ^ (j + 2)"
      by simp
    have "pow2 (ilog2 n) = of_int ((2::int) ^ (j + 1))"
      using eq j pow2_nat [of "j + 1"] by (simp add: add.commute)
    moreover have "pow2 (ilog2 n + 1) = of_int ((2::int) ^ (j + 2))"
      using eq j pow2_nat [of "j + 2"] by (simp add: add.commute)
    ultimately show ?thesis
      using lo hi eq ih(1) by (simp only: of_int_le_iff of_int_less_iff) simp
  qed
qed


lemma pow2_diff: "pow2 (a - b) = pow2 a / pow2 b"
  by (simp add: pow2_powi power_int_diff)

lemma flog2_bounds:
  assumes "0 < q"
  shows "pow2 (flog2 q) \<le> q \<and> q < pow2 (flog2 q + 1)"
proof -
  obtain a b where ab: "quotient_of q = (a, b)"
    by (cases "quotient_of q")
  then have b: "0 < b" and q: "q = of_int a / of_int b"
    by (simp_all add: quotient_of_denom_pos quotient_of_div)
  with assms have a: "0 < a"
    by (simp add: zero_less_divide_iff)
  let ?k = "ilog2 a - ilog2 b"
  from a have la: "pow2 (ilog2 a) \<le> of_int a" "of_int a < pow2 (ilog2 a + 1)"
    using ilog2_bounds [of a] by simp_all
  from b have lb: "pow2 (ilog2 b) \<le> of_int b" "of_int b < pow2 (ilog2 b + 1)"
    using ilog2_bounds [of b] by simp_all
  have "q < pow2 (ilog2 a + 1) / of_int b"
    using la(2) b by (simp add: q divide_strict_right_mono)
  also have "\<dots> \<le> pow2 (ilog2 a + 1) / pow2 (ilog2 b)"
    using lb(1) pow2_pos [of "ilog2 b"] pow2_pos [of "ilog2 a + 1"]
    by (simp add: frac_le)
  also have "\<dots> = pow2 (?k + 1)"
    by (simp add: pow2_diff [symmetric] algebra_simps)
  finally have upper: "q < pow2 (?k + 1)" .
  have "pow2 (?k - 1) = pow2 (ilog2 a) / pow2 (ilog2 b + 1)"
    by (simp add: pow2_diff [symmetric] algebra_simps)
  also have "\<dots> \<le> of_int a / pow2 (ilog2 b + 1)"
    using la(1) pow2_pos [of "ilog2 b + 1"] by (simp add: divide_right_mono)
  also have "\<dots> \<le> of_int a / of_int b"
    using lb(2) a b by (simp add: frac_le)
  finally have lower: "pow2 (?k - 1) \<le> q"
    by (simp add: q)
  show ?thesis
  proof (cases "q < pow2 ?k")
    case True
    then have "flog2 q = ?k - 1"
      by (simp add: flog2_def ab)
    with True lower show ?thesis
      by simp
  next
    case False
    then have "flog2 q = ?k"
      by (simp add: flog2_def ab)
    with False upper show ?thesis
      by simp
  qed
qed

lemma flog2_ge: "0 < q \<Longrightarrow> pow2 j \<le> q \<Longrightarrow> j \<le> flog2 q"
  using flog2_bounds [of q] pow2_less_cancel [of j "flog2 q + 1"] by simp

lemma flog2_less: "0 < q \<Longrightarrow> q < pow2 j \<Longrightarrow> flog2 q < j"
  using flog2_bounds [of q] pow2_less_cancel [of "flog2 q" j] by simp

lemma round_half_even_error: "\<bar>of_int (round_half_even x) - x\<bar> \<le> 1 / 2"
proof -
  have "of_int \<lfloor>x\<rfloor> \<le> x" "x < of_int \<lfloor>x\<rfloor> + 1"
    by linarith+
  then show ?thesis
    by (auto simp: round_half_even_def Let_def)
qed

lemma round_half_even_int: "round_half_even (of_int n) = n"
  by (simp add: round_half_even_def)

lemma round_half_even_nonneg: "0 \<le> x \<Longrightarrow> 0 \<le> round_half_even x"
  by (auto simp: round_half_even_def Let_def)

lemma scaled_error:
  fixes m p q :: rat
  assumes "0 < p"
  shows "\<bar>m * p - q\<bar> = \<bar>m - q / p\<bar> * p"
proof -
  have "m * p - q = (m - q / p) * p"
    using assms by (simp add: field_simps)
  then show ?thesis
    using assms by (simp add: abs_mult)
qed

lemma fl_pos_error:
  assumes "0 < q" and "flog2 q < 1023"
  shows "\<exists>y. fl_pos q = Fin y \<and> 0 \<le> y
            \<and> \<bar>y - q\<bar> \<le> pow2 (max (flog2 q - 52) (- 1074)) / 2"
proof -
  let ?e = "max (flog2 q - 52) (- 1074)"
  let ?m = "round_half_even (q / pow2 ?e)"
  let ?y = "of_int ?m * pow2 ?e"
  have eq: "fl_pos q = Fin ?y"
    using assms(2) by (simp add: fl_pos_def Let_def)
  have "0 \<le> q / pow2 ?e"
    using assms(1) pow2_pos [of ?e] by simp
  then have nonneg: "0 \<le> ?y"
    using pow2_pos [of ?e] by (simp add: round_half_even_nonneg)
  have "\<bar>?y - q\<bar> = \<bar>of_int ?m - q / pow2 ?e\<bar> * pow2 ?e"
    using pow2_pos [of ?e] by (rule scaled_error)
  also have "\<dots> \<le> 1 / 2 * pow2 ?e"
    using round_half_even_error [of "q / pow2 ?e"] pow2_pos [of ?e]
    by (intro mult_right_mono) simp_all
  finally have "\<bar>?y - q\<bar> \<le> pow2 ?e / 2"
    by simp
  with eq nonneg show ?thesis
    by blast
qed

text \<open>In the normal range the error is at most \<open>q / 2^53\<close>.\<close>

lemma fl_pos_relative:
  assumes "0 < q" and "flog2 q < 1023" and "- 1022 \<le> flog2 q"
  shows "\<exists>y. fl_pos q = Fin y \<and> 0 \<le> y \<and> \<bar>y - q\<bar> \<le> q / 2 ^ 53"
proof -
  from fl_pos_error [OF assms(1,2)] obtain y where y: "fl_pos q = Fin y" "0 \<le> y"
    "\<bar>y - q\<bar> \<le> pow2 (max (flog2 q - 52) (- 1074)) / 2"
    by blast
  from assms(3) have "max (flog2 q - 52) (- 1074) = flog2 q - 52"
    by simp
  then have "pow2 (max (flog2 q - 52) (- 1074)) / 2 = pow2 (flog2 q) / 2 ^ 53"
    using pow2_diff [of "flog2 q" 52] pow2_nat [of 52] by simp
  also have "\<dots> \<le> q / 2 ^ 53"
    using flog2_bounds [OF assms(1)] by (simp add: divide_right_mono)
  finally show ?thesis
    using y by auto
qed


lemma fl_pos_exact:
  assumes "0 < q" and "flog2 q < 1023"
    and "q / pow2 (max (flog2 q - 52) (- 1074)) = of_int n"
  shows "fl_pos q = Fin q"
proof -
  let ?e = "max (flog2 q - 52) (- 1074)"
  have "of_int n * pow2 ?e = q"
    using assms(3) pow2_pos [of ?e] by (simp add: field_simps)
  then show ?thesis
    using assms(2,3) by (simp add: fl_pos_def Let_def round_half_even_int)
qed

lemma fl_of_int:
  assumes "0 \<le> k" and "k \<le> 2 ^ 53"
  shows "fl (of_int k) = Fin (of_int k)"
proof (cases "k = 0")
  case True
  then show ?thesis
    by (simp add: fl_def)
next
  case False
  let ?q = "rat_of_int k"
  let ?j = "flog2 ?q"
  from False assms(1) have pos: "0 < ?q" and one: "pow2 0 \<le> ?q"
    by (simp_all add: pow2_def)
  have "?q \<le> rat_of_int (2 ^ 53)"
    using assms(2) by (simp only: of_int_le_iff)
  then have le: "?q \<le> pow2 53"
    using pow2_nat [of 53] by simp
  then have "?q < pow2 54"
    using pow2_nat [of 54] pow2_nat [of 53] by simp
  then have hi: "?j < 54"
    using pos by (rule flog2_less [rotated])
  have lo: "0 \<le> ?j"
    using pos one by (rule flog2_ge)
  have e: "max (?j - 52) (- 1074) = ?j - 52"
    using lo by simp
  have "\<exists>n. ?q / pow2 (?j - 52) = of_int n"
  proof (cases "?j \<le> 52")
    case True
    then obtain d where d: "52 - ?j = int d"
      by (metis diff_ge_0_iff_ge nat_0_le)
    have "?q / pow2 (?j - 52) = ?q * pow2 (52 - ?j)"
      using pow2_diff [of 0 "?j - 52"] by (simp add: pow2_def)
    also have "\<dots> = of_int (k * 2 ^ d)"
      by (simp add: d pow2_nat)
    finally show ?thesis
      by blast
  next
    case False
    with hi have j: "?j = 53"
      by simp
    with flog2_bounds [OF pos] le have "?q = pow2 53"
      by simp
    then have top: "?q = 2 ^ 53"
      using pow2_nat [of 53] by simp
    have two: "pow2 (?j - 52) = 2"
      by (simp add: j pow2_def)
    have "?q / pow2 (?j - 52) = ?q / 2"
      by (simp only: two)
    also have "\<dots> = of_int (2 ^ 52)"
      by (simp add: top)
    finally show ?thesis
      by blast
  qed
  then obtain n where "?q / pow2 (max (?j - 52) (- 1074)) = of_int n"
    using e by auto
  with pos hi have "fl_pos ?q = Fin ?q"
    by (intro fl_pos_exact) simp_all
  with pos show ?thesis
    by (simp add: fl_def)
qed

lemma fadd_ints:
  assumes "0 \<le> a" and "0 \<le> b" and "a + b \<le> 2 ^ 53"
  shows "fadd (Fin (of_int a)) (Fin (of_int b)) = Fin (of_int (a + b))"
  using fl_of_int [of "a + b"] assms by simp

lemma Math_round_error:
  "\<exists>r. Math_round (Fin z) = Fin (of_int r) \<and> \<bar>of_int r - z\<bar> \<le> 1 / 2"
proof -
  have "of_int \<lfloor>z + 1 / 2\<rfloor> \<le> z + 1 / 2" "z + 1 / 2 < of_int \<lfloor>z + 1 / 2\<rfloor> + 1"
    by linarith+
  then have "\<bar>of_int \<lfloor>z + 1 / 2\<rfloor> - z\<bar> \<le> 1 / 2"
    by linarith
  then show ?thesis
    by auto
qed

lemma score_nearest:
  fixes S n :: int
  assumes "0 \<le> S" and "S \<le> 100 * n" and "1 \<le> n" and "n < 2 ^ 32"
  shows "\<exists>r. Math_round (fmul (fdiv (Fin (of_int S)) (Fin (of_int (100 * n)))) (Fin 100))
               = Fin (of_int r)
            \<and> \<bar>of_int r - rat_of_int S / of_int n\<bar> \<le> 1 / 2"
proof (cases "S = 0")
  case True
  have "\<lfloor>1 / 2 :: rat\<rfloor> = 0"
    by (rule floor_unique) simp_all
  then have "Math_round (fmul (fdiv (Fin 0) (Fin (of_int (100 * n)))) (Fin 100)) = Fin (of_int 0)"
    using assms(3) by (simp add: fl_def)
  with True show ?thesis
    by (intro exI [of _ 0]) simp
next
  case False
  define q where "q = rat_of_int S / (100 * of_int n)"
  define x where "x = rat_of_int S / of_int n"
  have n: "0 < rat_of_int n" "rat_of_int n < 2 ^ 32"
    using assms(3,4) by simp_all
  have "rat_of_int S \<le> rat_of_int (100 * n)"
    using assms(2) by (simp only: of_int_le_iff)
  then have S: "1 \<le> rat_of_int S" "rat_of_int S \<le> 100 * of_int n"
    using assms(1) False by simp_all
  have qx: "x = 100 * q"
    using n by (simp add: q_def x_def)
  have q_pos: "0 < q"
    using n S by (simp add: q_def)
  have q_le: "q \<le> 1"
    using n S by (simp add: q_def)
  have "1 / (100 * 2 ^ 32) \<le> q"
    unfolding q_def using n S by (intro frac_le) simp_all
  then have q_ge: "pow2 (- 39) \<le> q"
    by (simp add: pow2_def)
  have k_hi: "flog2 q < 1"
    using q_pos q_le by (intro flog2_less) (simp_all add: pow2_def)
  have k_lo: "- 39 \<le> flog2 q"
    using q_pos q_ge by (rule flog2_ge)
  from fl_pos_relative [OF q_pos] k_hi k_lo
  obtain y where y: "fl_pos q = Fin y" "0 \<le> y" "\<bar>y - q\<bar> \<le> q / 2 ^ 53"
    by auto
  have y_err: "\<bar>y - q\<bar> \<le> q / 9007199254740992"
    using y(3) by simp
  have y_lo: "q / 2 \<le> y"
    using y_err q_pos by linarith
  define p where "p = y * 100"
  have p_pos: "0 < p"
    using y_lo q_pos by (simp add: p_def)
  have p_ge: "pow2 (- 39) \<le> p"
    using y_lo q_ge q_pos by (simp add: p_def)
  have p_err: "\<bar>p - x\<bar> \<le> 100 / 9007199254740992"
    using y_err q_le unfolding p_def qx by linarith
  have p_hi: "p < 128"
    using p_err qx q_le by linarith
  have kp_hi: "flog2 p < 7"
    using p_pos p_hi by (intro flog2_less) (simp_all add: pow2_def)
  have kp_lo: "- 39 \<le> flog2 p"
    using p_pos p_ge by (rule flog2_ge)
  from fl_pos_relative [OF p_pos] kp_hi kp_lo
  obtain z where z: "fl_pos p = Fin z" "0 \<le> z" "\<bar>z - p\<bar> \<le> p / 2 ^ 53"
    by auto
  have "\<bar>z - p\<bar> \<le> p / 9007199254740992"
    using z(3) by simp
  then have z_err: "\<bar>z - x\<bar> \<le> 228 / 9007199254740992"
    using p_hi p_err by linarith
  have "fdiv (Fin (of_int S)) (Fin (of_int (100 * n))) = Fin y"
    using q_pos n y(1) False by (simp add: fl_def q_def)
  then have computed: "fmul (fdiv (Fin (of_int S)) (Fin (of_int (100 * n)))) (Fin 100) = Fin z"
    using p_pos z(1) by (simp add: fl_def p_def)
  from Math_round_error [of z] obtain r where
    r: "Math_round (Fin z) = Fin (of_int r)" "\<bar>of_int r - z\<bar> \<le> 1 / 2"
    by blast
  have close: "\<bar>rat_of_int r - x\<bar> \<le> 1 / 2 + 228 / 9007199254740992"
    using r(2) z_err by linarith
  have scaled: "rat_of_int (2 * n * r - 2 * S) = 2 * of_int n * (of_int r - x)"
    using n by (simp add: x_def field_simps)
  have "\<bar>rat_of_int (2 * n * r - 2 * S)\<bar> = \<bar>2 * of_int n * (rat_of_int r - x)\<bar>"
    by (simp only: scaled)
  also have "\<dots> = 2 * of_int n * \<bar>rat_of_int r - x\<bar>"
    using n by (simp add: abs_mult)
  finally have abs_scaled:
    "\<bar>rat_of_int (2 * n * r - 2 * S)\<bar> = 2 * of_int n * \<bar>rat_of_int r - x\<bar>" .
  also have "\<dots> \<le> 2 * of_int n * (1 / 2 + 228 / 9007199254740992)"
    using close n by (intro mult_left_mono) simp_all
  also have "\<dots> < rat_of_int (n + 1)"
    using n by simp
  finally have "rat_of_int \<bar>2 * n * r - 2 * S\<bar> < rat_of_int (n + 1)"
    by (simp only: of_int_abs)
  then have "\<bar>2 * n * r - 2 * S\<bar> < n + 1"
    by (simp only: of_int_less_iff)
  then have "\<bar>2 * n * r - 2 * S\<bar> \<le> n"
    by simp
  then have "rat_of_int \<bar>2 * n * r - 2 * S\<bar> \<le> rat_of_int n"
    by (simp only: of_int_le_iff)
  then have "2 * of_int n * \<bar>rat_of_int r - x\<bar> \<le> rat_of_int n"
    by (simp only: of_int_abs abs_scaled)
  then have "\<bar>rat_of_int r - x\<bar> \<le> 1 / 2"
    using n by simp
  with computed r(1) show ?thesis
    by (auto simp: x_def)
qed


section \<open>The quiz score\<close>

lemma add_score_questionScore:
  "add_score results t q = (case questionScore results q of None \<Rightarrow> t | Some s \<Rightarrow> fadd t s)"
  by (simp add: add_score_def questionScore_def split: option.splits)

lemma stored_points:
  assumes "stored results q"
  shows "\<exists>c::int. 0 \<le> c \<and> c \<le> 100 \<and> questionScore results q = Some (Fin (of_int c))"
proof -
  from assms obtain r where r: "map_of results (question_index q) = Some r"
    and w: "question_type q = ''mcq'' \<or> whole_score (llm_score r)"
    by (auto simp: stored_def split: option.splits)
  show ?thesis
  proof (cases "question_type q = ''mcq''")
    case True
    then have "questionScore results q = Some (Fin (of_int (if is_correct r then 100 else 0)))"
      by (simp add: questionScore_def r)
    then show ?thesis
      by (intro exI [of _ "if is_correct r then 100 else 0"]) simp
  next
    case False
    with w have ws: "whole_score (llm_score r)"
      by simp
    show ?thesis
    proof (cases "llm_score r")
      case None
      with False have "questionScore results q = Some (Fin (of_int 0))"
        by (simp add: questionScore_def r or_num_def)
      then show ?thesis
        by (intro exI [of _ 0]) simp
    next
      case (Some s)
      with ws obtain v where v: "s = Fin v" "of_int \<lfloor>v\<rfloor> = v" "0 \<le> v" "v \<le> 100"
        by (cases s) (auto simp: whole_score_def)
      from False Some v(1) have "questionScore results q = Some (Fin v)"
        by (simp add: questionScore_def r or_num_def)
      then have "questionScore results q = Some (Fin (of_int \<lfloor>v\<rfloor>))"
        by (simp only: v(2))
      moreover have "0 \<le> \<lfloor>v\<rfloor>" "\<lfloor>v\<rfloor> \<le> 100"
        using v(3,4) by (simp_all add: floor_le_iff)
      ultimately show ?thesis
        by blast
    qed
  qed
qed

lemma total_score_exact:
  assumes "list_all (stored results) qs" and "0 \<le> a" and "a + 100 * int (length qs) \<le> 2 ^ 53"
  shows "\<exists>S::int. 0 \<le> S \<and> S \<le> 100 * int (length qs)
           \<and> total_points results qs = of_int S
           \<and> foldl (add_score results) (Fin (of_int a)) qs = Fin (of_int (a + S))"
  using assms
proof (induction qs arbitrary: a)
  case Nil
  show ?case
    by (intro exI [of _ 0]) (simp add: total_points_def)
next
  case (Cons q qs)
  from Cons.prems(1) have q: "stored results q" and rest: "list_all (stored results) qs"
    by simp_all
  from stored_points [OF q] obtain c :: int where
    c: "0 \<le> c" "c \<le> 100" "questionScore results q = Some (Fin (of_int c))"
    by blast
  have "fadd (Fin (of_int a)) (Fin (of_int c)) = Fin (of_int (a + c))"
    using c Cons.prems(2,3) by (intro fadd_ints) simp_all
  then have step: "add_score results (Fin (of_int a)) q = Fin (of_int (a + c))"
    by (simp only: add_score_questionScore c(3) option.case)
  have "0 \<le> a + c" and "a + c + 100 * int (length qs) \<le> 2 ^ 53"
    using c Cons.prems(2,3) by simp_all
  from Cons.IH [OF rest this] obtain S :: int where
    S: "0 \<le> S" "S \<le> 100 * int (length qs)" "total_points results qs = of_int S"
      "foldl (add_score results) (Fin (of_int (a + c))) qs = Fin (of_int (a + c + S))"
    by blast
  have "question_points results q = of_int c"
    by (simp add: question_points_def c(3))
  then have "total_points results (q # qs) = of_int (c + S)"
    using S(3) by (simp add: total_points_def)
  moreover have "foldl (add_score results) (Fin (of_int a)) (q # qs) = Fin (of_int (a + (c + S)))"
    using step S(4) by (simp add: add.assoc)
  moreover have "0 \<le> c + S" "c + S \<le> 100 * int (length (q # qs))"
    using c S by simp_all
  ultimately show ?case
    by blast
qed

lemma foldl_add_score_cong:
  assumes "map (questionScore results') qs = map (questionScore results) qs"
  shows "foldl (add_score results') t qs = foldl (add_score results) t qs"
  using assms by (induction qs arbitrary: t) (simp_all add: add_score_questionScore)

text \<open>
  C1, as the code has it.  Take a quiz with at least one question (and fewer than \<open>2^32\<close>,
  as every array has) whose questions are all stored: each has a validation result, and
  the score of an open-ended one is absent or a whole number from 0 to 100.  Then
  \<open>calculateScore\<close> is \<open>Math.round\<close> of the double \<open>(totalScore / maxScore) * 100\<close>, where
  \<open>totalScore\<close> is the exact sum of the points and \<open>maxScore\<close> is 100 times the number of
  questions.  That value is a whole number nearest to the exact percentage
  \<open>totalScore / number of questions\<close>; at an exact tie the rounding of the quotient
  decides which of the two neighbours it is.  The score depends on the stored results only
  through the score of each question.  Four multiple-choice questions with three correct
  and an open-ended question scored 80 give 76.
\<close>

theorem calculateScore_overall:
  assumes "questions quiz = Some qs" and "qs \<noteq> []" and "length qs < 2 ^ 32"
    and "list_all (stored results) qs"
  shows "calculateScore (Some quiz) results
           = Some (Math_round (fmul (fdiv (Fin (total_points results qs))
                                          (Fin (100 * of_nat (length qs)))) (Fin 100)))
   \<and> (\<exists>r::int. calculateScore (Some quiz) results = Some (Fin (of_int r))
          \<and> \<bar>of_int r - total_points results qs / of_nat (length qs)\<bar> \<le> 1 / 2)
   \<and> (\<forall>results'. results' \<noteq> []
          \<longrightarrow> map (questionScore results') qs = map (questionScore results) qs
          \<longrightarrow> calculateScore (Some quiz) results' = calculateScore (Some quiz) results)
   \<and> calculateScore (Some sample_quiz) sample_results = Some (Fin 76)"
proof -
  let ?n = "int (length qs)"
  have n: "1 \<le> ?n" "?n < 2 ^ 32"
    using assms(2,3) by (simp_all add: Suc_le_eq)
  have nonempty: "results \<noteq> []"
  proof -
    from assms(2) obtain q where "q \<in> set qs"
      by (cases qs) auto
    with assms(4) have "stored results q"
      by (simp add: list_all_iff)
    then show ?thesis
      by (auto simp: stored_def)
  qed
  have "(0::int) + 100 * ?n \<le> 2 ^ 53"
    using n(2) by simp
  from total_score_exact [OF assms(4) _ this] obtain S :: int where
    S: "0 \<le> S" "S \<le> 100 * ?n" "total_points results qs = of_int S"
      "foldl (add_score results) (Fin 0) qs = Fin (of_int S)"
    by auto
  have "100 * ?n \<le> 2 ^ 53"
    using n(2) by simp
  then have "fl (of_int (100 * ?n)) = Fin (of_int (100 * ?n))"
    using n(1) by (intro fl_of_int) simp_all
  then have maxScore: "fmul (Fin (of_nat (length qs))) (Fin 100) = Fin (of_int (100 * ?n))"
    by (simp add: mult.commute)
  have score: "calculateScore (Some quiz) results
      = Some (Math_round (fmul (fdiv (Fin (of_int S)) (Fin (of_int (100 * ?n)))) (Fin 100)))"
    using assms(1) nonempty S(4) maxScore by (simp add: calculateScore_def Let_def)
  from score_nearest [OF S(1,2) n] obtain r where
    r: "Math_round (fmul (fdiv (Fin (of_int S)) (Fin (of_int (100 * ?n)))) (Fin 100)) = Fin (of_int r)"
      "\<bar>of_int r - rat_of_int S / of_int ?n\<bar> \<le> 1 / 2"
    by blast
  have first: "calculateScore (Some quiz) results
           = Some (Math_round (fmul (fdiv (Fin (total_points results qs))
                                          (Fin (100 * of_nat (length qs)))) (Fin 100)))"
    using score by (simp add: S(3))
  have second: "\<exists>r::int. calculateScore (Some quiz) results = Some (Fin (of_int r))
          \<and> \<bar>of_int r - total_points results qs / of_nat (length qs)\<bar> \<le> 1 / 2"
    using score r by (auto simp: S(3))
  have third: "calculateScore (Some quiz) results' = calculateScore (Some quiz) results"
    if "results' \<noteq> []" "map (questionScore results') qs = map (questionScore results) qs"
    for results'
    using that nonempty assms(1)
    by (simp add: calculateScore_def Let_def foldl_add_score_cong [OF that(2)])
  have fourth: "calculateScore (Some sample_quiz) sample_results = Some (Fin 76)"
    by code_simp
  from first second third fourth show ?thesis
    by blast
qed

theorem calculateScore_overall_witness:
  "questions sample_quiz = Some [mcq 0, mcq 1, mcq 2, mcq 3, open_ended 4]
   \<and> list_all (stored sample_results) [mcq 0, mcq 1, mcq 2, mcq 3, open_ended 4]
   \<and> total_points sample_results [mcq 0, mcq 1, mcq 2, mcq 3, open_ended 4] = 380
   \<and> calculateScore (Some sample_quiz) sample_results = Some (Fin 76)
   \<and> sample_results @ sample_results \<noteq> []
   \<and> calculateScore (Some sample_quiz) (sample_results @ sample_results) = Some (Fin 76)"
proof -
  let ?qs = "[mcq 0, mcq 1, mcq 2, mcq 3, open_ended 4]"
  have a: "questions sample_quiz = Some ?qs"
    by (simp add: sample_quiz_def)
  have b: "?qs \<noteq> []" and c: "length ?qs < 2 ^ 32"
    by simp_all
  have d: "list_all (stored sample_results) ?qs"
    by code_simp
  have e: "total_points sample_results ?qs = 380"
    by code_simp
  have f: "map (questionScore (sample_results @ sample_results)) ?qs
         = map (questionScore sample_results) ?qs"
    by code_simp
  have g: "sample_results @ sample_results \<noteq> []"
    by (simp add: sample_results_def)
  note overall = calculateScore_overall [OF a b c d]
  from overall have s76: "calculateScore (Some sample_quiz) sample_results = Some (Fin 76)"
    by blast
  from overall f g have "calculateScore (Some sample_quiz) (sample_results @ sample_results)
      = calculateScore (Some sample_quiz) sample_results"
    by blast
  then have twice: "calculateScore (Some sample_quiz) (sample_results @ sample_results)
      = Some (Fin 76)"
    using s76 by (rule trans)
  show ?thesis
    by (intro conjI) (rule a d e s76 g twice)+
qed

text \<open>
  The quiz of the example scores 76 and not 95: the sum 380 is divided by 500, not by 400.
  Rounding also differs from \<open>Math.round\<close> of the exact percentage at a tie: scores 29 and
  0 give 14, because the double \<open>29 / 200 * 100\<close> is just below 14.5.
\<close>

theorem calculateScore_overall_counterexample:
  "calculateScore (Some sample_quiz) sample_results = Some (Fin 76)
   \<and> calculateScore (Some sample_quiz) sample_results \<noteq> Some (Fin 95)
   \<and> calculateScore (Some tie_quiz) tie_results = Some (Fin 14)
   \<and> total_points tie_results [open_ended 0, open_ended 1] / 2 = 29 / 2
   \<and> Math_round (Fin (29 / 2)) = Fin 15"
  by code_simp

section \<open>The time display of the video player\<close>

lemma digit_char_is_digit: "0 \<le> d \<Longrightarrow> d < 10 \<Longrightarrow> is_digit (digit_char d)"
proof -
  assume "0 \<le> d" and "d < 10"
  then have "nat d < length ''0123456789''"
    by simp
  then have "''0123456789'' ! nat d \<in> set ''0123456789''"
    by (rule nth_mem)
  then show ?thesis
    by (simp only: is_digit_def digit_char_def)
qed

lemma digits_props:
  "0 \<le> n \<Longrightarrow> list_all is_digit (digits n) \<and> 1 \<le> length (digits n)
     \<and> (n < 10 \<longrightarrow> length (digits n) = 1)
     \<and> (10 \<le> n \<longrightarrow> 2 \<le> length (digits n))
     \<and> (10 \<le> n \<and> n < 100 \<longrightarrow> length (digits n) = 2)"
proof (induction n rule: digits.induct)
  case (1 n)
  show ?case
  proof (cases "n < 10")
    case True
    with "1.prems" show ?thesis
      by (simp add: digits.simps [of n] digit_char_is_digit)
  next
    case False
    then have "0 \<le> n div 10"
      by simp
    from "1.IH" [OF False this]
    have ih: "list_all is_digit (digits (n div 10))" "1 \<le> length (digits (n div 10))"
      "n div 10 < 10 \<longrightarrow> length (digits (n div 10)) = 1"
      by simp_all
    have last: "is_digit (digit_char (n mod 10))"
      by (rule digit_char_is_digit) simp_all
    have unfold: "digits n = digits (n div 10) @ [digit_char (n mod 10)]"
      using False by (simp add: digits.simps [of n])
    have "n < 100 \<Longrightarrow> n div 10 < 10"
      by simp
    with ih last False show ?thesis
      by (auto simp: unfold)
  qed
qed

lemma padStart_long: "2 \<le> length s \<Longrightarrow> padStart 2 c s = s"
  by (simp add: padStart_def)

lemma padStart_one: "length s = 1 \<Longrightarrow> padStart 2 c s = c # s"
  by (simp add: padStart_def)

lemma padded_props:
  assumes "0 \<le> n"
  shows "2 \<le> length (padStart 2 (CHR ''0'') (int_toString n))"
    and "list_all is_digit (padStart 2 (CHR ''0'') (int_toString n))"
    and "n < 100 \<Longrightarrow> length (padStart 2 (CHR ''0'') (int_toString n)) = 2"
proof -
  have z: "is_digit (CHR ''0'')"
    by (simp add: is_digit_def)
  have s: "int_toString n = digits n"
    using assms by (simp add: int_toString_def)
  note p = digits_props [OF assms]
  show "2 \<le> length (padStart 2 (CHR ''0'') (int_toString n))"
    using p by (cases "n < 10") (simp_all add: s padStart_one padStart_long)
  show "list_all is_digit (padStart 2 (CHR ''0'') (int_toString n))"
    using p z by (cases "n < 10") (simp_all add: s padStart_one padStart_long)
  show "length (padStart 2 (CHR ''0'') (int_toString n)) = 2" if "n < 100"
    using p that by (cases "n < 10") (simp_all add: s padStart_one padStart_long)
qed

lemma floor_div60:
  fixes q :: rat
  shows "\<lfloor>q / 60\<rfloor> = \<lfloor>q\<rfloor> div 60"
proof (rule floor_unique)
  have a: "of_int \<lfloor>q\<rfloor> \<le> q" "q < of_int \<lfloor>q\<rfloor> + 1"
    by linarith+
  have "60 * (\<lfloor>q\<rfloor> div 60) \<le> \<lfloor>q\<rfloor>"
    by simp
  then have "rat_of_int (60 * (\<lfloor>q\<rfloor> div 60)) \<le> rat_of_int \<lfloor>q\<rfloor>"
    by (simp only: of_int_le_iff)
  then have "60 * rat_of_int (\<lfloor>q\<rfloor> div 60) \<le> rat_of_int \<lfloor>q\<rfloor>"
    by simp
  with a(1) show "rat_of_int (\<lfloor>q\<rfloor> div 60) \<le> q / 60"
    by linarith
  have "\<lfloor>q\<rfloor> + 1 \<le> 60 * (\<lfloor>q\<rfloor> div 60 + 1)"
    by presburger
  then have "rat_of_int (\<lfloor>q\<rfloor> + 1) \<le> rat_of_int (60 * (\<lfloor>q\<rfloor> div 60 + 1))"
    by (simp only: of_int_le_iff)
  then have "rat_of_int \<lfloor>q\<rfloor> + 1 \<le> 60 * (rat_of_int (\<lfloor>q\<rfloor> div 60) + 1)"
    by simp
  with a(2) show "q / 60 < rat_of_int (\<lfloor>q\<rfloor> div 60) + 1"
    by linarith
qed

lemma secs_floor:
  assumes "0 \<le> q"
  shows "Math_floor (fmod (Fin q) (Fin 60)) = Fin (of_int (\<lfloor>q\<rfloor> mod 60))"
proof -
  have "trunc (q / 60) = \<lfloor>q / 60\<rfloor>"
    using assms by (simp add: trunc_def)
  then have "fmod (Fin q) (Fin 60) = Fin (q - of_int (60 * (\<lfloor>q\<rfloor> div 60)))"
    by (simp add: floor_div60)
  moreover have "\<lfloor>q - of_int (60 * (\<lfloor>q\<rfloor> div 60))\<rfloor> = \<lfloor>q\<rfloor> mod 60"
    by (simp only: floor_diff_of_int) (simp add: minus_mult_div_eq_mod)
  ultimately show ?thesis
    by (simp only: Math_floor.simps)
qed


text \<open>
  Dividing a double below \<open>2^53\<close> by 60 and rounding the quotient to a double never
  reaches the next whole number: the dividend lies at least one unit in its last place
  below the next multiple of 60, and that is more than half a unit in the last place of the
  quotient.
\<close>

lemma over_pow2_int:
  assumes "e \<le> 0"
  shows "rat_of_int a / pow2 e = of_int (a * 2 ^ nat (- e))"
proof -
  have "pow2 e = 1 / 2 ^ nat (- e)"
    using assms by (cases "e = 0") (simp_all add: pow2_def)
  then show ?thesis
    by simp
qed

lemma round_half_even_ge:
  assumes "of_int t \<le> u"
  shows "t \<le> round_half_even u"
proof -
  from assms have "t \<le> \<lfloor>u\<rfloor>"
    by (simp add: le_floor_iff)
  then show ?thesis
    by (auto simp: round_half_even_def Let_def)
qed

lemma round_half_even_less:
  assumes "u < of_int t - 1 / 2"
  shows "round_half_even u < t"
proof -
  have "rat_of_int (round_half_even u) \<le> u + 1 / 2"
    using round_half_even_error [of u] by linarith
  with assms have "rat_of_int (round_half_even u) < rat_of_int t"
    by linarith
  then show ?thesis
    by (simp only: of_int_less_iff)
qed

lemma double_multiple:
  assumes "0 < q" and "q < 2 ^ 53" and "fl q = Fin q"
  shows "\<exists>m. q = of_int m * pow2 (max (flog2 q - 52) (- 1074))"
proof -
  have "q < pow2 53"
    using assms(2) pow2_nat [of 53] by simp
  with assms(1) have "flog2 q < 53"
    by (rule flog2_less)
  then have "fl_pos q = Fin (of_int (round_half_even (q / pow2 (max (flog2 q - 52) (- 1074))))
                            * pow2 (max (flog2 q - 52) (- 1074)))"
    by (simp add: fl_pos_def Let_def)
  moreover have "fl q = fl_pos q"
    using assms(1) by (simp add: fl_def)
  ultimately have "q = of_int (round_half_even (q / pow2 (max (flog2 q - 52) (- 1074))))
                            * pow2 (max (flog2 q - 52) (- 1074))"
    using assms(3) by simp
  then show ?thesis ..
qed

lemma fl_pos_floor60:
  assumes "0 < q" and "q < 2 ^ 53" and "fl q = Fin q"
  shows "\<exists>y. fl_pos (q / 60) = Fin y \<and> \<lfloor>y\<rfloor> = \<lfloor>q / 60\<rfloor>"
proof -
  define x where "x = q / 60"
  define k where "k = flog2 x"
  define e where "e = max (k - 52) (- 1074)"
  define m where "m = round_half_even (x / pow2 e)"
  define y where "y = of_int m * pow2 e"
  define M where "M = \<lfloor>x\<rfloor>"
  define P where "P = pow2 e"
  have q60: "q = 60 * x"
    by (simp add: x_def)
  have x_pos: "0 < x"
    using assms(1) by (simp add: x_def)
  have "x < 2 ^ 48"
    using assms(2) by (simp add: x_def)
  then have "x < pow2 48"
    using pow2_nat [of 48] by simp
  with x_pos have k_hi: "k < 48"
    unfolding k_def by (rule flog2_less)
  have e_neg: "e \<le> - 5"
    using k_hi by (simp add: e_def)
  have P_pos: "0 < P"
    by (simp add: P_def pow2_pos)
  have computed: "fl_pos x = Fin y"
    using k_hi by (simp add: fl_pos_def Let_def k_def e_def m_def y_def)
  have y: "y = of_int m * P"
    by (simp add: y_def P_def)
  have M: "of_int M \<le> x" "x < of_int M + 1"
    unfolding M_def by linarith+
  have M_nonneg: "0 \<le> M"
    using x_pos by (simp add: M_def)
  have whole: "rat_of_int a / P = of_int (a * 2 ^ nat (- e))" for a
    unfolding P_def using e_neg by (intro over_pow2_int) simp
  have unscale: "rat_of_int (a * 2 ^ nat (- e)) * P = of_int a" for a
    using whole [of a] P_pos by (simp add: field_simps)
  have lower: "of_int M \<le> y"
  proof -
    have "rat_of_int M / P \<le> x / P"
      using M(1) P_pos by (simp add: divide_right_mono)
    then have "rat_of_int (M * 2 ^ nat (- e)) \<le> x / pow2 e"
      by (simp only: whole P_def [symmetric])
    then have "M * 2 ^ nat (- e) \<le> m"
      unfolding m_def by (rule round_half_even_ge)
    then have "rat_of_int (M * 2 ^ nat (- e)) \<le> rat_of_int m"
      by (simp only: of_int_le_iff)
    then have "rat_of_int (M * 2 ^ nat (- e)) * P \<le> rat_of_int m * P"
      using P_pos by (intro mult_right_mono) simp_all
    then show ?thesis
      by (simp only: unscale y)
  qed
  have upper: "y < of_int M + 1"
  proof (cases "- 1022 \<le> k")
    case False
    then have e: "e = - 1074"
      by (simp add: e_def)
    have "x < pow2 (k + 1)"
      using flog2_bounds [OF x_pos] by (simp add: k_def)
    also have "\<dots> \<le> pow2 (- 1)"
      using False by (intro pow2_mono) simp
    finally have x_small: "x < 1 / 2"
      by (simp add: pow2_def)
    have "P \<le> pow2 (- 1)"
      unfolding P_def e by (intro pow2_mono) simp
    then have P_small: "P \<le> 1 / 2"
      by (simp add: pow2_def)
    from fl_pos_error [OF x_pos] k_hi computed
    have "\<bar>y - x\<bar> \<le> P / 2"
      by (simp add: k_def e_def P_def)
    with x_small P_small have "y < 1"
      by linarith
    with M_nonneg show ?thesis
      by simp
  next
    case True
    then have e: "e = k - 52"
      by (simp add: e_def)
    define kq where "kq = flog2 q"
    define eq where "eq = max (kq - 52) (- 1074)"
    define Q where "Q = pow2 eq"
    from double_multiple [OF assms] obtain mq where mq: "q = of_int mq * Q"
      by (auto simp: kq_def eq_def Q_def)
    have Q_pos: "0 < Q"
      by (simp add: Q_def pow2_pos)
    have "q < pow2 53"
      using assms(2) pow2_nat [of 53] by simp
    with assms(1) have kq_hi: "kq < 53"
      unfolding kq_def by (rule flog2_less)
    have p5: "pow2 5 = 32"
      by (simp add: pow2_def)
    have "pow2 (k + 5) = pow2 k * 32"
      by (simp only: pow2_add p5)
    also have "\<dots> \<le> x * 32"
      using flog2_bounds [OF x_pos] by (simp add: k_def)
    also have "\<dots> \<le> q"
      using x_pos by (simp add: q60)
    finally have "k + 5 \<le> kq"
      unfolding kq_def using assms(1) by (intro flog2_ge)
    then have eq_lo: "e + 5 \<le> eq" and eq_hi: "eq \<le> 0"
      using kq_hi by (simp_all add: e eq_def)
    have "pow2 (e + 5) \<le> Q"
      unfolding Q_def using eq_lo by (rule pow2_mono)
    moreover have "pow2 (e + 5) = 32 * P"
      by (simp only: pow2_add p5 P_def mult.commute)
    ultimately have Q_big: "32 * P \<le> Q"
      by simp
    have wholeQ: "rat_of_int a / Q = of_int (a * 2 ^ nat (- eq))" for a
      unfolding Q_def using eq_hi by (rule over_pow2_int)
    define D where "D = 60 * (M + 1) * 2 ^ nat (- eq) - mq"
    have gap: "rat_of_int (60 * (M + 1)) - q = of_int D * Q"
    proof -
      have "rat_of_int (60 * (M + 1)) = of_int (60 * (M + 1) * 2 ^ nat (- eq)) * Q"
        using wholeQ [of "60 * (M + 1)"] Q_pos by (simp add: field_simps)
      then show ?thesis
        by (simp only: mq D_def of_int_diff left_diff_distrib)
    qed
    have "0 < rat_of_int (60 * (M + 1)) - q"
      using M(2) by (simp add: q60)
    then have "0 < rat_of_int D * Q"
      by (simp only: gap)
    then have "0 < rat_of_int D"
      using Q_pos by (simp add: zero_less_mult_iff)
    then have "1 \<le> D"
      by simp
    then have "1 \<le> rat_of_int D"
      by simp
    then have "1 * Q \<le> rat_of_int D * Q"
      using Q_pos by (intro mult_right_mono) simp_all
    then have "Q \<le> rat_of_int (60 * (M + 1)) - q"
      by (simp only: gap mult_1)
    with Q_big have "32 * P \<le> 60 * (rat_of_int M + 1) - 60 * x"
      by (simp add: q60)
    then have "60 * x < 60 * (rat_of_int M + 1) - 30 * P"
      using P_pos by linarith
    then have "x < (rat_of_int M + 1) - P / 2"
      by simp
    then have "x / P < ((rat_of_int M + 1) - P / 2) / P"
      using P_pos by (simp add: divide_strict_right_mono)
    also have "\<dots> = rat_of_int (M + 1) / P - 1 / 2"
      using P_pos by (simp add: field_simps)
    also have "\<dots> = rat_of_int ((M + 1) * 2 ^ nat (- e)) - 1 / 2"
      by (simp only: whole)
    finally have "m < (M + 1) * 2 ^ nat (- e)"
      unfolding m_def P_def by (rule round_half_even_less)
    then have "rat_of_int m < rat_of_int ((M + 1) * 2 ^ nat (- e))"
      by (simp only: of_int_less_iff)
    then have "rat_of_int m * P < rat_of_int ((M + 1) * 2 ^ nat (- e)) * P"
      using P_pos by (simp add: mult_strict_right_mono)
    then have "y < rat_of_int (M + 1)"
      by (simp only: unscale y)
    then show ?thesis
      by simp
  qed
  from lower upper have "\<lfloor>y\<rfloor> = M"
    by (intro floor_unique)
  with computed show ?thesis
    by (simp add: x_def M_def)
qed


lemma Number_toString_int:
  assumes "\<bar>n\<bar> \<le> 2 ^ 53"
  shows "Number_toString other (Fin (of_int n)) = int_toString n"
proof -
  from assms have "rat_of_int \<bar>n\<bar> \<le> rat_of_int (2 ^ 53)"
    by (simp only: of_int_le_iff)
  then have "\<bar>rat_of_int n\<bar> \<le> 2 ^ 53"
    by simp
  then show ?thesis
    by (simp add: Number_toString_def)
qed

lemma mins_floor:
  assumes "0 \<le> q" and "q < 2 ^ 53" and "fl q = Fin q"
  shows "Math_floor (fdiv (Fin q) (Fin 60)) = Fin (of_int \<lfloor>q / 60\<rfloor>)"
proof (cases "q = 0")
  case True
  then show ?thesis
    by (simp add: fl_def)
next
  case False
  with assms(1) have pos: "0 < q"
    by simp
  from fl_pos_floor60 [OF pos assms(2,3)] obtain y where
    y: "fl_pos (q / 60) = Fin y" "\<lfloor>y\<rfloor> = \<lfloor>q / 60\<rfloor>"
    by blast
  have "fdiv (Fin q) (Fin 60) = Fin y"
    using pos y(1) by (simp add: fl_def)
  then show ?thesis
    by (simp add: y(2))
qed

text \<open>
  C10, as the code has it.  \<open>formatTime\<close> returns \<open>00:00\<close> for \<open>NaN\<close> and for the two
  infinities.  For every double \<open>s\<close> with \<open>0 \<le> s < 2^53\<close> it returns \<open>mm:ss\<close>, where \<open>mm\<close> is
  the decimal form of \<open>floor(s / 60)\<close> padded with zeros to at least two digits and \<open>ss\<close> is
  the decimal form of \<open>floor(s mod 60)\<close> padded with zeros to exactly two digits.  Both parts
  consist of decimal digits only.
\<close>

theorem formatTime_form:
  assumes "0 \<le> q" and "q < 2 ^ 53" and "fl q = Fin q"
  shows "formatTime other (Fin q)
           = padStart 2 (CHR ''0'') (int_toString \<lfloor>q / 60\<rfloor>) @ '':''
             @ padStart 2 (CHR ''0'') (int_toString (\<lfloor>q\<rfloor> mod 60))
   \<and> \<lfloor>q\<rfloor> mod 60 = \<lfloor>q - 60 * of_int \<lfloor>q / 60\<rfloor>\<rfloor>
   \<and> 2 \<le> length (padStart 2 (CHR ''0'') (int_toString \<lfloor>q / 60\<rfloor>))
   \<and> list_all is_digit (padStart 2 (CHR ''0'') (int_toString \<lfloor>q / 60\<rfloor>))
   \<and> length (padStart 2 (CHR ''0'') (int_toString (\<lfloor>q\<rfloor> mod 60))) = 2
   \<and> list_all is_digit (padStart 2 (CHR ''0'') (int_toString (\<lfloor>q\<rfloor> mod 60)))
   \<and> formatTime other NaN = ''00:00''
   \<and> formatTime other PosInf = ''00:00''
   \<and> formatTime other NegInf = ''00:00''"
proof -
  let ?mins = "\<lfloor>q / 60\<rfloor>" and ?secs = "\<lfloor>q\<rfloor> mod 60"
  have mins_lo: "0 \<le> ?mins"
    using assms(1) by simp
  have "q / 60 < 2 ^ 53"
    using assms(1,2) by simp
  then have "?mins < 2 ^ 53"
    by (simp add: floor_less_iff)
  with mins_lo have mins_print: "Number_toString other (Fin (of_int ?mins)) = int_toString ?mins"
    by (intro Number_toString_int) simp
  have secs_range: "0 \<le> ?secs" "?secs < 60"
    by simp_all
  then have secs_print: "Number_toString other (Fin (of_int ?secs)) = int_toString ?secs"
    by (intro Number_toString_int) simp
  have shape: "formatTime other (Fin q)
           = padStart 2 (CHR ''0'') (int_toString ?mins) @ '':''
             @ padStart 2 (CHR ''0'') (int_toString ?secs)"
    by (simp only: formatTime_def Let_def isFinite.simps isNaN.simps simp_thms if_False
        mins_floor [OF assms] secs_floor [OF assms(1)] mins_print secs_print)
  have remainder: "?secs = \<lfloor>q - 60 * of_int ?mins\<rfloor>"
  proof -
    have "\<lfloor>q - of_int (60 * (\<lfloor>q\<rfloor> div 60))\<rfloor> = \<lfloor>q\<rfloor> mod 60"
      by (simp only: floor_diff_of_int) (simp add: minus_mult_div_eq_mod)
    then show ?thesis
      by (simp add: floor_div60)
  qed
  have special: "formatTime other NaN = ''00:00''" "formatTime other PosInf = ''00:00''"
    "formatTime other NegInf = ''00:00''"
    by (simp_all add: formatTime_def)
  from secs_range have "?secs < 100"
    by simp
  with shape remainder special padded_props [OF mins_lo] padded_props [OF secs_range(1)]
  show ?thesis
    by blast
qed

theorem formatTime_form_witness:
  "(0::rat) \<le> 251 / 2 \<and> (251 / 2 :: rat) < 2 ^ 53 \<and> fl (251 / 2) = Fin (251 / 2)
   \<and> formatTime unused_toString (Fin (251 / 2)) = ''02:05''"
proof -
  have a: "(0::rat) \<le> 251 / 2" and b: "(251 / 2 :: rat) < 2 ^ 53"
    by simp_all
  have c: "fl (251 / 2) = Fin (251 / 2)"
    by code_simp
  have "padStart 2 (CHR ''0'') (int_toString \<lfloor>(251 / 2 :: rat) / 60\<rfloor>) @ '':''
          @ padStart 2 (CHR ''0'') (int_toString (\<lfloor>251 / 2 :: rat\<rfloor> mod 60)) = ''02:05''"
    by code_simp
  with formatTime_form [OF a b c, of unused_toString]
  have "formatTime unused_toString (Fin (251 / 2)) = ''02:05''"
    by (simp only:)
  with a b c show ?thesis
    by (intro conjI)
qed

text \<open>
  Outside that range the form is lost.  A negative time keeps its sign in both parts, and
  the seconds are not a remainder from 0 to 59: \<open>-5\<close> gives \<open>-1:-5\<close>.  For a large time
  the quotient is rounded before the floor is taken: for \<open>72057594037928096\<close> the minutes
  shown are one more than \<open>floor(s / 60)\<close>.
\<close>

theorem formatTime_form_counterexample:
  "fl (- 5) = Fin (- 5)
   \<and> formatTime unused_toString (Fin (- 5)) = ''-1:-5''
   \<and> fl 72057594037928096 = Fin 72057594037928096
   \<and> formatTime unused_toString (Fin 72057594037928096) = ''1200959900632135:56''
   \<and> \<lfloor>72057594037928096 / 60 :: rat\<rfloor> = 1200959900632134"
  by code_simp

end
